theory Spec2Isabelle
  imports Main
begin

section \<open>JavaScript values\<close>

text \<open>
  The data domain of the adapter is JSON-shaped rows: primitives, arrays and plain objects,
  with \<open>undefined\<close>, \<open>NaN\<close> and arbitrary-precision integers (\<open>bigint\<close>) beside them.
  A number is identified by its decimal digits, the ones \<open>Number::toString\<close> prints: an
  integer is \<open>JNum i\<close>; a number that is not an integer is \<open>JDec m k\<close>, the value
  \<open>m / 10 ^ k\<close> with \<open>0 < k\<close> and \<open>m\<close> not divisible by 10. Numbers are taken at this
  exact value: the rounding and the range of IEEE doubles are not modelled, and the two
  zeros are one value (no operation of the program tells them apart). \<open>NaN\<close> is a value of
  its own because strict equality treats it specially. Strings are sequences of 8-bit code
  units. A plain object is its list of own enumerable properties, each key once, in the
  order of insertion (the platform lists integer-like keys first; this is not modelled).
\<close>

datatype jsval =
    JUndefined
  | JNull
  | JBool bool
  | JNum int
  | JDec int nat
  | JNaN
  | JStr string
  | JBigInt int
  | JArr "jsval list"
  | JObj "(string \<times> jsval) list"

text \<open>
  A thrown value: an \<open>Error\<close> object with its message; a \<open>SyntaxError\<close> or a \<open>TypeError\<close>
  raised by a built-in (they are \<open>Error\<close>s too; their message is the platform's); or any
  other value.
\<close>

datatype thrown = ErrorObj string | SyntaxError | TypeError | NonError jsval

subsection \<open>Decimal rendering of integers\<close>

definition digit_char :: "nat \<Rightarrow> char" where
  "digit_char d = char_of (48 + d)"

fun nat_digits :: "nat \<Rightarrow> string" where
  "nat_digits n = (if n < 10 then [digit_char n] else nat_digits (n div 10) @ [digit_char (n mod 10)])"

declare nat_digits.simps [simp del]

text \<open>\<open>BigInt::toString\<close>: the decimal digits, whatever the size.\<close>

definition int_toString :: "int \<Rightarrow> string" where
  "int_toString i = (if i < 0 then CHR ''-'' # nat_digits (nat (- i)) else nat_digits (nat i))"

text \<open>
  \<open>Number::toString\<close> (radix 10) of a positive number given by its significant digits \<open>ds\<close>
  (no trailing zero) and the position \<open>n\<close> of the decimal point, the number being
  \<open>0.ds \<times> 10 ^ n\<close>: an integer of up to 21 digits is written out; a number with a fraction
  and up to 21 digits before the point, or up to 6 zeros after it, is written with a point;
  everything else is in exponent form.
\<close>

definition number_text :: "string \<Rightarrow> int \<Rightarrow> string" where
  "number_text ds n =
     (let k = int (length ds) in
      if k \<le> n \<and> n \<le> 21 then ds @ replicate (nat (n - k)) (CHR ''0'')
      else if 0 < n \<and> n \<le> 21 then take (nat n) ds @ CHR ''.'' # drop (nat n) ds
      else if - 6 < n \<and> n \<le> 0 then ''0.'' @ replicate (nat (- n)) (CHR ''0'') @ ds
      else (if k = 1 then ds else hd ds # CHR ''.'' # tl ds)
           @ CHR ''e'' # (if 0 \<le> n - 1 then CHR ''+'' else CHR ''-'') # nat_digits (nat \<bar>n - 1\<bar>))"

text \<open>\<open>Number::toString\<close> of the number \<open>m / 10 ^ k\<close>.\<close>

definition decimal_toString :: "int \<Rightarrow> nat \<Rightarrow> string" where
  "decimal_toString m k =
     (if m = 0 then ''0''
      else (let ds = nat_digits (nat \<bar>m\<bar>);
                sig = rev (dropWhile (\<lambda>c. c = CHR ''0'') (rev ds));
                t = number_text sig (int (length ds) - int k)
            in if m < 0 then CHR ''-'' # t else t))"

subsection \<open>The conversion \<open>String(v)\<close>\<close>

fun join_with :: "string \<Rightarrow> string list \<Rightarrow> string" where
  "join_with sep [] = []"
| "join_with sep [s] = s"
| "join_with sep (s # t # ts) = s @ sep @ join_with sep (t # ts)"

fun js_String :: "jsval \<Rightarrow> string"
  and js_String_elems :: "jsval list \<Rightarrow> string list" where
  "js_String JUndefined = ''undefined''"
| "js_String JNull = ''null''"
| "js_String (JBool b) = (if b then ''true'' else ''false'')"
| "js_String (JNum n) = decimal_toString n 0"
| "js_String (JDec m k) = decimal_toString m k"
| "js_String JNaN = ''NaN''"
| "js_String (JStr s) = s"
| "js_String (JBigInt n) = int_toString n"
| "js_String (JArr xs) = join_with '','' (js_String_elems xs)"
| "js_String (JObj kvs) = ''[object Object]''"
| "js_String_elems [] = []"
| "js_String_elems (x # xs) =
     (if x = JUndefined \<or> x = JNull then [] else js_String x) # js_String_elems xs"

section \<open>Structural equality (utils.ts)\<close>

text \<open>
  \<open>a === b\<close> on primitives compares values and is false on two \<open>NaN\<close>s; on arrays and
  objects it is reference identity. Values carry no identity here: the two operands of
  \<open>deepEqual\<close> are taken to share no array and no object (the data of a live query and the
  fresh result of its builder do not), so \<open>===\<close> is false on two arrays or two objects.
\<close>

definition strict_eq_prim :: "jsval \<Rightarrow> jsval \<Rightarrow> bool" where
  "strict_eq_prim a b =
     (case a of JArr xs \<Rightarrow> False | JObj kvs \<Rightarrow> False | JNaN \<Rightarrow> False | _ \<Rightarrow> a = b)"

text \<open>
  \<open>a.constructor !== b.constructor\<close>: an array inherits \<open>Array\<close>; a plain object inherits
  \<open>Object\<close> unless it has an own property named \<open>constructor\<close>, whose value is read then.
\<close>

definition same_constructor :: "(string \<times> jsval) list \<Rightarrow> (string \<times> jsval) list \<Rightarrow> bool" where
  "same_constructor as bs =
     (case map_of as ''constructor'' of
        None \<Rightarrow> (case map_of bs ''constructor'' of None \<Rightarrow> True | Some y \<Rightarrow> False)
      | Some x \<Rightarrow> (case map_of bs ''constructor'' of None \<Rightarrow> False | Some y \<Rightarrow> strict_eq_prim x y))"

text \<open>
  \<open>deepEqual\<close> follows the source branch by branch: the strict-equality shortcut; two
  truthy operands of type object (arrays and plain objects here) with the constructor test,
  the array loop and the key loop, whose guard \<open>key && ...\<close> skips the empty key; and the
  final test that both operands are \<open>NaN\<close>.
\<close>

fun deepEqual :: "jsval \<Rightarrow> jsval \<Rightarrow> bool"
  and deepEqual_elems :: "jsval list \<Rightarrow> jsval list \<Rightarrow> bool"
  and deepEqual_props :: "(string \<times> jsval) list \<Rightarrow> (string \<times> jsval) list \<Rightarrow> bool" where
  "deepEqual a b =
     (if strict_eq_prim a b then True
      else (case a of
          JArr xs \<Rightarrow>
            (case b of
               JArr ys \<Rightarrow> length xs = length ys \<and> deepEqual_elems xs ys
             | JObj bs \<Rightarrow> False
             | _ \<Rightarrow> False)
        | JObj as \<Rightarrow>
            (case b of
               JArr ys \<Rightarrow> False
             | JObj bs \<Rightarrow>
                 if \<not> same_constructor as bs then False
                 else length as = length bs \<and> deepEqual_props as bs
             | _ \<Rightarrow> False)
        | _ \<Rightarrow> a = JNaN \<and> b = JNaN))"
| "deepEqual_elems (x # xs) (y # ys) = (deepEqual x y \<and> deepEqual_elems xs ys)"
| "deepEqual_elems [] ys = True"
| "deepEqual_elems (x # xs) [] = True"
| "deepEqual_props [] bs = True"
| "deepEqual_props ((k, v) # as) bs =
     (if k \<noteq> [] \<and> (case map_of bs k of None \<Rightarrow> True | Some w \<Rightarrow> \<not> deepEqual v w)
      then False else deepEqual_props as bs)"

declare deepEqual.simps(1) [simp del]

text \<open>
  \<open>wf_val\<close>: every object in the value holds each key once and has no own property named
  \<open>constructor\<close>.
\<close>

fun wf_val :: "jsval \<Rightarrow> bool" where
  "wf_val (JArr xs) = (\<forall>x \<in> set xs. wf_val x)"
| "wf_val (JObj kvs) =
     (distinct (map fst kvs) \<and> ''constructor'' \<notin> set (map fst kvs) \<and> (\<forall>v \<in> set (map snd kvs). wf_val v))"
| "wf_val v = True"

section \<open>The live-query engine (live-query.ts)\<close>

text \<open>
  A subscriber is a callback, identified by a number (the callbacks of one live query are
  a \<open>Set\<close>, iterated in insertion order, so the list below holds each identity once).
  Calling it either returns (\<open>None\<close>) or throws a value.
\<close>

type_synonym subscriber = "nat \<times> (jsval \<Rightarrow> thrown option)"

text \<open>
  The internal query object together with its result snapshot: \<open>internalQuery.result\<close> is
  assigned before the first refetch starts and never removed, so the tests
  \<open>!internalQuery.result\<close> of the source are always false and \<open>updateState\<close> always assigns.
\<close>

record live_query =
  lq_id :: nat
  data :: jsval
  error :: "thrown option"
  loading :: bool
  subscribers :: "subscriber list"
  tableDeps :: "string list"

text \<open>What the outside world observes: a subscriber called with data, a line on \<open>console.error\<close>.\<close>

datatype event = Notified nat jsval | ConsoleError nat thrown

text \<open>The awaited builder call: its promise fulfils with a value, or the call throws or rejects.\<close>

datatype builder_result = Resolved jsval | Rejected thrown

fun notify_each :: "subscriber list \<Rightarrow> jsval \<Rightarrow> (thrown + unit) \<times> event list" where
  "notify_each [] d = (Inr (), [])"
| "notify_each (sub # rest) d =
     (if d \<noteq> JUndefined then
        (case snd sub d of
           Some e \<Rightarrow> (Inl e, [Notified (fst sub) d])
         | None \<Rightarrow> (case notify_each rest d of (r, evs) \<Rightarrow> (r, Notified (fst sub) d # evs)))
      else notify_each rest d)"

definition notifySubscribers :: "live_query \<Rightarrow> (thrown + unit) \<times> event list" where
  "notifySubscribers q = notify_each (subscribers q) (data q)"

text \<open>\<open>e instanceof Error ? e : new Error(String(e))\<close>\<close>

definition wrap_error :: "thrown \<Rightarrow> thrown" where
  "wrap_error e = (case e of NonError v \<Rightarrow> ErrorObj (js_String v) | _ \<Rightarrow> e)"

text \<open>
  \<open>refetch\<close> is an async function: it runs up to the builder call, is suspended at the
  \<open>await\<close>, and is resumed with the builder's result. \<open>refetch_begin\<close> is the part before the
  suspension (it returns \<open>isFirstRun\<close>); \<open>refetch_try\<close>, \<open>refetch_catch\<close> and the
  \<open>finally\<close> step in \<open>refetch_settle\<close> are the part after it. The first component of
  \<open>refetch_settle\<close> is the fate of the promise \<open>refetch()\<close> returned: \<open>Inr ()\<close> when it
  fulfils, \<open>Inl e\<close> when it rejects with \<open>e\<close>. The module-level slot
  \<open>currentTableCollector\<close> belongs to the client state below.
\<close>

definition refetch_begin :: "live_query \<Rightarrow> bool \<times> live_query" where
  "refetch_begin q = (tableDeps q = [], q\<lparr>loading := True\<rparr>)"

definition refetch_try :: "builder_result \<Rightarrow> live_query \<Rightarrow> (thrown + unit) \<times> live_query \<times> event list" where
  "refetch_try r q =
     (case r of
        Rejected e \<Rightarrow> (Inl e, q, [])
      | Resolved newData \<Rightarrow>
          if \<not> deepEqual (data q) newData then
            (let q1 = q\<lparr>data := newData\<rparr> in
             case notifySubscribers q1 of
               (Inl e, evs) \<Rightarrow> (Inl e, q1, evs)
             | (Inr u, evs) \<Rightarrow> (Inr (), q1\<lparr>error := None\<rparr>, evs))
          else (Inr (), q\<lparr>error := None\<rparr>, []))"

definition refetch_catch :: "thrown \<Rightarrow> live_query \<Rightarrow> (thrown + unit) \<times> live_query \<times> event list" where
  "refetch_catch e q = (Inr (), q\<lparr>error := Some (wrap_error e)\<rparr>, [ConsoleError (lq_id q) e])"

definition refetch_settle :: "builder_result \<Rightarrow> live_query \<Rightarrow> (thrown + unit) \<times> live_query \<times> event list" where
  "refetch_settle r q =
     (case refetch_try r q of
        (Inl e, q1, evs) \<Rightarrow>
          (case refetch_catch e q1 of (res, q2, evs2) \<Rightarrow> (res, q2\<lparr>loading := False\<rparr>, evs @ evs2))
      | (Inr u, q1, evs) \<Rightarrow> (Inr (), q1\<lparr>loading := False\<rparr>, evs))"

text \<open>One refetch from start to end, when no other refetch of the query runs meanwhile.\<close>

definition refetch :: "builder_result \<Rightarrow> live_query \<Rightarrow> (thrown + unit) \<times> live_query \<times> event list" where
  "refetch r q = refetch_settle r (snd (refetch_begin q))"

text \<open>
  Refetches of one query may overlap (nothing serialises them), but each of the two parts
  runs without interruption: the history of a query is a sequence of steps, a refetch
  starting or the builder of a started refetch settling. \<open>lq_run\<close> runs such a sequence and
  collects the events.
\<close>

datatype lq_step = RefetchBegin | RefetchSettle builder_result

fun lq_run :: "lq_step list \<Rightarrow> live_query \<Rightarrow> live_query \<times> event list" where
  "lq_run [] q = (q, [])"
| "lq_run (RefetchBegin # steps) q = lq_run steps (snd (refetch_begin q))"
| "lq_run (RefetchSettle r # steps) q =
     (case refetch_settle r q of (res, q1, evs) \<Rightarrow>
        (case lq_run steps q1 of (q2, evs2) \<Rightarrow> (q2, evs @ evs2)))"

text \<open>
  \<open>subscribe\<close>: the callback is added to the set (a callback already in it keeps its place),
  then called at once when data is there; an exception of that call reaches the caller of
  \<open>subscribe\<close>. The function returned by \<open>subscribe\<close> is \<open>unsubscribe\<close>.
\<close>

definition subscribe :: "subscriber \<Rightarrow> live_query \<Rightarrow> (thrown + unit) \<times> live_query \<times> event list" where
  "subscribe cb q =
     (let q1 = q\<lparr>subscribers :=
                  (if fst cb \<in> set (map fst (subscribers q)) then subscribers q
                   else subscribers q @ [cb])\<rparr>
      in if data q1 \<noteq> JUndefined then
           (case snd cb (data q1) of
              Some e \<Rightarrow> (Inl e, q1, [Notified (fst cb) (data q1)])
            | None \<Rightarrow> (Inr (), q1, [Notified (fst cb) (data q1)]))
         else (Inr (), q1, []))"

definition unsubscribe :: "nat \<Rightarrow> live_query \<Rightarrow> live_query" where
  "unsubscribe s q = q\<lparr>subscribers := filter (\<lambda>sub. fst sub \<noteq> s) (subscribers q)\<rparr>"

text \<open>The data a subscriber was called with, in order.\<close>

fun received :: "nat \<Rightarrow> event list \<Rightarrow> jsval list" where
  "received s [] = []"
| "received s (Notified i d # evs) = (if i = s then d # received s evs else received s evs)"
| "received s (ConsoleError i e # evs) = received s evs"

fun adjacent_differ :: "jsval list \<Rightarrow> bool" where
  "adjacent_differ (x # y # rest) = (\<not> deepEqual x y \<and> adjacent_differ (y # rest))"
| "adjacent_differ _ = True"

definition never_throws :: "subscriber list \<Rightarrow> bool" where
  "never_throws subs = (\<forall>sub \<in> set subs. \<forall>d. snd sub d = None)"

subsection \<open>The client: registry, collector slot and suspended refetches (db.ts)\<close>

text \<open>
  \<open>objects\<close> holds every \<open>internalQuery\<close> object by its id (closures keep an object alive
  after \<open>destroy\<close>); \<open>liveQueries\<close> is the key list of the registry \<open>Map\<close> in insertion
  order; \<open>currentTableCollector\<close> is the module-level slot, holding the id of the query
  whose \<open>tableDeps\<close> set it aliases. A refetch that has called its builder and waits at the
  \<open>await\<close> is an entry of \<open>suspended\<close> (query id and \<open>isFirstRun\<close>); \<open>builderCalls\<close>
  records every builder invocation.
\<close>

record client =
  objects :: "nat \<rightharpoonup> live_query"
  liveQueries :: "nat list"
  queryIdCounter :: nat
  currentTableCollector :: "nat option"
  suspended :: "(nat \<times> bool) list"
  builderCalls :: "nat list"
  trace :: "event list"

definition toLowerCase_char :: "char \<Rightarrow> char" where
  "toLowerCase_char c =
     (let n = (of_char c :: nat) in if 65 \<le> n \<and> n \<le> 90 then char_of (n + 32) else c)"

definition toLowerCase :: "string \<Rightarrow> string" where
  "toLowerCase s = map toLowerCase_char s"

text \<open>The synchronous part of \<open>refetch()\<close>: up to and including the builder call.\<close>

definition refetch_start :: "nat \<Rightarrow> client \<Rightarrow> client" where
  "refetch_start i w =
     (case objects w i of
        None \<Rightarrow> w
      | Some q \<Rightarrow>
          (case refetch_begin q of (isFirstRun, q1) \<Rightarrow>
             w\<lparr>objects := (objects w)(i \<mapsto> q1),
               currentTableCollector := (if isFirstRun then Some i else currentTableCollector w),
               builderCalls := builderCalls w @ [i],
               suspended := suspended w @ [(i, isFirstRun)]\<rparr>))"

text \<open>The builder of the \<open>k\<close>-th suspended refetch settles with \<open>r\<close>; the refetch runs to its end.\<close>

definition refetch_resume :: "nat \<Rightarrow> builder_result \<Rightarrow> client \<Rightarrow> client" where
  "refetch_resume k r w =
     (if k < length (suspended w) then
        (case suspended w ! k of (i, isFirstRun) \<Rightarrow>
           (case objects w i of
              None \<Rightarrow> w
            | Some q \<Rightarrow>
                (case refetch_settle r q of (res, q1, evs) \<Rightarrow>
                   w\<lparr>objects := (objects w)(i \<mapsto> q1),
                     currentTableCollector := (if isFirstRun then None else currentTableCollector w),
                     suspended := take k (suspended w) @ drop (Suc k) (suspended w),
                     trace := trace w @ evs\<rparr>)))
      else w)"

text \<open>
  \<open>logQuery\<close> of session.ts, as far as the collector goes: the tables of the statement
  (\<open>extractTableNames(sql)\<close>, taken as given) are added to the set in the slot.
\<close>

definition logQuery_collect :: "string list \<Rightarrow> client \<Rightarrow> client" where
  "logQuery_collect tables w =
     (case currentTableCollector w of
        None \<Rightarrow> w
      | Some i \<Rightarrow>
          (case objects w i of
             None \<Rightarrow> w
           | Some q \<Rightarrow>
               w\<lparr>objects := (objects w)(i \<mapsto> q\<lparr>tableDeps := foldl (\<lambda>deps t. List.insert t deps) (tableDeps q) tables\<rparr>)\<rparr>))"

definition hasOverlap :: "string \<Rightarrow> client \<Rightarrow> nat \<Rightarrow> bool" where
  "hasOverlap tableName w i =
     (case objects w i of None \<Rightarrow> False | Some q \<Rightarrow> toLowerCase tableName \<in> set (tableDeps q))"

definition onTablesChanged :: "string \<Rightarrow> client \<Rightarrow> client" where
  "onTablesChanged tableName w =
     foldl (\<lambda>w1 i. if hasOverlap tableName w1 i then refetch_start i w1 else w1) w (liveQueries w)"

definition createLiveQuery :: "client \<Rightarrow> client" where
  "createLiveQuery w =
     (let i = queryIdCounter w + 1;
          q = \<lparr>lq_id = i, data = JUndefined, error = None, loading = True, subscribers = [], tableDeps = []\<rparr>
      in refetch_start i
           (w\<lparr>queryIdCounter := i, objects := (objects w)(i \<mapsto> q),
              liveQueries := liveQueries w @ [i]\<rparr>))"

definition destroy :: "nat \<Rightarrow> client \<Rightarrow> client" where
  "destroy i w = w\<lparr>liveQueries := removeAll i (liveQueries w)\<rparr>"

definition new_client :: client where
  "new_client = \<lparr>objects = Map.empty, liveQueries = [], queryIdCounter = 0,
     currentTableCollector = None, suspended = [], builderCalls = [], trace = []\<rparr>"

definition affected :: "string \<Rightarrow> client \<Rightarrow> nat list" where
  "affected tableName w = filter (hasOverlap tableName w) (liveQueries w)"

section \<open>Prepared statements (session.ts)\<close>

text \<open>
  The engine's statement object is modelled by the calls made on it. The first argument of
  \<open>run\<close>, \<open>all\<close>, \<open>get\<close> and \<open>finalize\<close> is a transaction handle or \<open>null\<close>
  (\<open>None\<close>): with \<open>null\<close> the engine executes on the raw database handle.
\<close>

datatype stmt_call =
    StmtRun "nat option" "jsval list"
  | StmtAll "nat option" "jsval list"
  | StmtGet "nat option" "jsval list"
  | StmtRaw bool
  | StmtFinalize "nat option"

record stmt_state =
  calls :: "stmt_call list"
  logged :: "(string \<times> jsval list) list"

text \<open>
  \<open>prepare_result\<close> is the fate of the promise \<open>this.stmt\<close> (\<open>None\<close>: it fulfils with the
  statement; \<open>Some e\<close>: the engine's \<open>prepare\<close> rejected with \<open>e\<close>). \<open>pq_tx\<close> is the bound
  transaction context \<open>this.tx\<close>.
\<close>

record prepared_query =
  pq_sql :: string
  pq_tx :: "nat option"
  oneTime :: bool
  customResultMapper :: "(jsval \<Rightarrow> jsval) option"
  prepare_result :: "thrown option"

text \<open>
  The constructor: a statement given a registry is registered with it, under the held value
  \<open>{stmt, tx}\<close>, and is long-lived; one given \<open>null\<close> is one-time. \<open>prepareQuery\<close> passes
  the session's registry, \<open>prepareOneTimeQuery\<close> passes \<open>null\<close>; both pass \<open>this.tx ?? null\<close>.
\<close>

record held_value =
  held_prepare :: "thrown option"
  held_tx :: "nat option"

record session =
  session_tx :: "nat option"
  registry :: "held_value list"

definition new_prepared_query ::
  "bool \<Rightarrow> string \<Rightarrow> nat option \<Rightarrow> (jsval \<Rightarrow> jsval) option \<Rightarrow> thrown option \<Rightarrow> prepared_query" where
  "new_prepared_query has_registry sql tx mapper prep =
     \<lparr>pq_sql = sql, pq_tx = tx, oneTime = \<not> has_registry, customResultMapper = mapper,
      prepare_result = prep\<rparr>"

definition prepareQuery ::
  "string \<Rightarrow> (jsval \<Rightarrow> jsval) option \<Rightarrow> thrown option \<Rightarrow> session \<Rightarrow> prepared_query \<times> session" where
  "prepareQuery sql mapper prep s =
     (new_prepared_query True sql (session_tx s) mapper prep,
      s\<lparr>registry := registry s @ [\<lparr>held_prepare = prep, held_tx = session_tx s\<rparr>]\<rparr>)"

definition prepareOneTimeQuery :: "string \<Rightarrow> thrown option \<Rightarrow> session \<Rightarrow> prepared_query \<times> session" where
  "prepareOneTimeQuery sql prep s = (new_prepared_query False sql (session_tx s) None prep, s)"

text \<open>
  The callback of the \<open>FinalizationRegistry\<close>, run by the platform with the held value of a
  collected statement: \<open>heldValue.stmt.then((stmt) => stmt.finalize(heldValue.tx))\<close>.
\<close>

definition registry_cleanup :: "held_value \<Rightarrow> stmt_state \<Rightarrow> stmt_state" where
  "registry_cleanup h st =
     (case held_prepare h of
        None \<Rightarrow> st\<lparr>calls := calls st @ [StmtFinalize (held_tx h)]\<rparr>
      | Some e \<Rightarrow> st)"

text \<open>
  The four execution modes. \<open>params\<close> is the result of \<open>fillPlaceholders\<close>; \<open>outcome\<close> is
  what awaiting the engine's execution call yields: a value, or a thrown error. The result
  is what the mode's promise settles with (\<open>Inl e\<close>: it rejects with \<open>e\<close>).
\<close>

definition pq_logQuery :: "prepared_query \<Rightarrow> jsval list \<Rightarrow> stmt_state \<Rightarrow> stmt_state" where
  "pq_logQuery pq params st = st\<lparr>logged := logged st @ [(pq_sql pq, params)]\<rparr>"

definition stmt_call :: "stmt_call \<Rightarrow> stmt_state \<Rightarrow> stmt_state" where
  "stmt_call c st = st\<lparr>calls := calls st @ [c]\<rparr>"

definition falsy :: "jsval \<Rightarrow> bool" where
  "falsy v = (v = JUndefined \<or> v = JNull \<or> v = JBool False \<or> v = JNum 0 \<or> v = JNaN
              \<or> v = JStr [] \<or> v = JBigInt 0)"

definition pq_run ::
  "prepared_query \<Rightarrow> jsval list \<Rightarrow> thrown + jsval \<Rightarrow> stmt_state \<Rightarrow> (thrown + jsval) \<times> stmt_state" where
  "pq_run pq params outcome st =
     (let st1 = pq_logQuery pq params st in
      case prepare_result pq of
        Some e \<Rightarrow> (Inl e, st1)
      | None \<Rightarrow>
          (let st2 = stmt_call (StmtRun (pq_tx pq) params) st1 in
           case outcome of
             Inl e \<Rightarrow> (Inl e, st2)
           | Inr u \<Rightarrow>
               (Inr JUndefined,
                if oneTime pq then stmt_call (StmtFinalize (pq_tx pq)) st2 else st2)))"

definition pq_all ::
  "prepared_query \<Rightarrow> jsval list \<Rightarrow> thrown + jsval \<Rightarrow> stmt_state \<Rightarrow> (thrown + jsval) \<times> stmt_state" where
  "pq_all pq params outcome st =
     (let st1 = pq_logQuery pq params st in
      case prepare_result pq of
        Some e \<Rightarrow> (Inl e, st1)
      | None \<Rightarrow>
          (let st2 = stmt_call (StmtAll (pq_tx pq) params)
                       (stmt_call (StmtRaw (customResultMapper pq \<noteq> None)) st1) in
           case outcome of
             Inl e \<Rightarrow> (Inl e, st2)
           | Inr rows \<Rightarrow>
               (Inr (case customResultMapper pq of Some f \<Rightarrow> f rows | None \<Rightarrow> rows),
                if oneTime pq then stmt_call (StmtFinalize (pq_tx pq)) st2 else st2)))"

definition pq_get ::
  "prepared_query \<Rightarrow> jsval list \<Rightarrow> thrown + jsval \<Rightarrow> stmt_state \<Rightarrow> (thrown + jsval) \<times> stmt_state" where
  "pq_get pq params outcome st =
     (let st1 = pq_logQuery pq params st in
      case prepare_result pq of
        Some e \<Rightarrow> (Inl e, st1)
      | None \<Rightarrow>
          (let st2 = stmt_call (StmtGet (pq_tx pq) params)
                       (stmt_call (StmtRaw (customResultMapper pq \<noteq> None)) st1) in
           case outcome of
             Inl e \<Rightarrow> (Inl e, st2)
           | Inr row \<Rightarrow>
               (Inr (if falsy row then JUndefined
                     else (case customResultMapper pq of Some f \<Rightarrow> f (JArr [row]) | None \<Rightarrow> row)),
                if oneTime pq then stmt_call (StmtFinalize (pq_tx pq)) st2 else st2)))"

text \<open>\<open>row[0]\<close> of a row in raw (array) form; reading past the end gives \<open>undefined\<close>.\<close>

definition first_column :: "jsval \<Rightarrow> jsval" where
  "first_column row = (case row of JArr (x # xs) \<Rightarrow> x | _ \<Rightarrow> JUndefined)"

definition pq_values ::
  "prepared_query \<Rightarrow> jsval list \<Rightarrow> thrown + jsval \<Rightarrow> stmt_state \<Rightarrow> (thrown + jsval) \<times> stmt_state" where
  "pq_values pq params outcome st =
     (let st1 = pq_logQuery pq params st in
      case prepare_result pq of
        Some e \<Rightarrow> (Inl e, st1)
      | None \<Rightarrow>
          (let st2 = stmt_call (StmtAll None params) (stmt_call (StmtRaw True) st1) in
           case outcome of
             Inl e \<Rightarrow> (Inl e, st2)
           | Inr rows \<Rightarrow>
               (Inr (case rows of JArr rs \<Rightarrow> JArr (map first_column rs) | _ \<Rightarrow> JUndefined),
                if oneTime pq then stmt_call (StmtFinalize (pq_tx pq)) st2 else st2)))"

datatype exec_mode = Run | All | Get | Values

definition pq_execute ::
  "exec_mode \<Rightarrow> prepared_query \<Rightarrow> jsval list \<Rightarrow> thrown + jsval \<Rightarrow> stmt_state
     \<Rightarrow> (thrown + jsval) \<times> stmt_state" where
  "pq_execute m = (case m of Run \<Rightarrow> pq_run | All \<Rightarrow> pq_all | Get \<Rightarrow> pq_get | Values \<Rightarrow> pq_values)"

definition is_finalize :: "stmt_call \<Rightarrow> bool" where
  "is_finalize c = (case c of StmtFinalize t \<Rightarrow> True | _ \<Rightarrow> False)"

definition finalize_count :: "stmt_state \<Rightarrow> nat" where
  "finalize_count st = length (filter is_finalize (calls st))"

text \<open>The transaction argument of the execution calls made on the engine statement.\<close>

fun execution_targets :: "stmt_call list \<Rightarrow> nat option list" where
  "execution_targets [] = []"
| "execution_targets (StmtRun t ps # cs) = t # execution_targets cs"
| "execution_targets (StmtAll t ps # cs) = t # execution_targets cs"
| "execution_targets (StmtGet t ps # cs) = t # execution_targets cs"
| "execution_targets (StmtRaw b # cs) = execution_targets cs"
| "execution_targets (StmtFinalize t # cs) = execution_targets cs"

section \<open>The migrator (migrator.ts)\<close>

text \<open>
  A migration (\<open>MigrationMeta\<close>) and a row of the bookkeeping table. The database is modelled
  by the bookkeeping table (\<open>None\<close> until it is created) and by the list of migration
  statements executed so far, which stands for the state of the application's tables;
  migration statements are taken not to touch the bookkeeping table. \<open>uuid_count\<close> counts the
  calls of \<open>crypto.randomUUID()\<close>.
\<close>

record migration_meta =
  m_sql :: "string list"
  folderMillis :: int
  m_hash :: string

record migration_entry =
  entry_id :: string
  entry_hash :: string
  created_at :: int

record database =
  migrations_table :: "migration_entry list option"
  executed :: "string list"
  uuid_count :: nat

text \<open>
  The engine decides, from what has been executed so far, whether a statement fails. An
  operation returns the error it throws, if any, and the database it leaves behind.
\<close>

type_synonym engine = "string list \<Rightarrow> string \<Rightarrow> thrown option"

text \<open>\<open>CREATE TABLE IF NOT EXISTS\<close> of the bookkeeping table.\<close>

definition migrationTableCreate :: "database \<Rightarrow> database" where
  "migrationTableCreate db =
     (case migrations_table db of None \<Rightarrow> db\<lparr>migrations_table := Some []\<rparr> | Some rows \<Rightarrow> db)"

text \<open>\<open>SELECT ... ORDER BY created_at DESC LIMIT 1\<close>: a row of greatest \<open>created_at\<close>, if any.\<close>

fun most_recent :: "migration_entry list \<Rightarrow> migration_entry option" where
  "most_recent [] = None"
| "most_recent (r # rs) =
     (case most_recent rs of
        None \<Rightarrow> Some r
      | Some m \<Rightarrow> if created_at r < created_at m then Some m else Some r)"

definition dbMigrations :: "database \<Rightarrow> migration_entry option" where
  "dbMigrations db = (case migrations_table db of None \<Rightarrow> None | Some rows \<Rightarrow> most_recent rows)"

text \<open>\<open>!lastDbMigration || lastDbMigration.created_at < migration.folderMillis\<close>\<close>

definition is_pending :: "migration_entry option \<Rightarrow> migration_meta \<Rightarrow> bool" where
  "is_pending lastDbMigration migration =
     (case lastDbMigration of None \<Rightarrow> True | Some r \<Rightarrow> created_at r < folderMillis migration)"

fun run_statements :: "engine \<Rightarrow> string list \<Rightarrow> database \<Rightarrow> thrown option \<times> database" where
  "run_statements eng [] db = (None, db)"
| "run_statements eng (stmt # stmts) db =
     (case eng (executed db) stmt of
        Some e \<Rightarrow> (Some e, db)
      | None \<Rightarrow> run_statements eng stmts (db\<lparr>executed := executed db @ [stmt]\<rparr>))"

text \<open>The \<open>INSERT\<close> into the bookkeeping table; \<open>id\<close> is its primary key.\<close>

definition insert_entry :: "(nat \<Rightarrow> string) \<Rightarrow> migration_meta \<Rightarrow> database \<Rightarrow> thrown option \<times> database" where
  "insert_entry uuid migration db =
     (let new_id = uuid (uuid_count db); db1 = db\<lparr>uuid_count := Suc (uuid_count db)\<rparr> in
      case migrations_table db1 of
        None \<Rightarrow> (Some (ErrorObj ''no such table''), db1)
      | Some rows \<Rightarrow>
          if new_id \<in> set (map entry_id rows) then (Some (ErrorObj ''UNIQUE constraint failed''), db1)
          else (None, db1\<lparr>migrations_table :=
                  Some (rows @ [\<lparr>entry_id = new_id, entry_hash = m_hash migration,
                                 created_at = folderMillis migration\<rparr>])\<rparr>))"

fun migrate_loop ::
  "engine \<Rightarrow> (nat \<Rightarrow> string) \<Rightarrow> migration_entry option \<Rightarrow> migration_meta list \<Rightarrow> database
     \<Rightarrow> thrown option \<times> database" where
  "migrate_loop eng uuid lastDbMigration [] db = (None, db)"
| "migrate_loop eng uuid lastDbMigration (migration # rest) db =
     (if is_pending lastDbMigration migration then
        (case run_statements eng (m_sql migration) db of
           (Some e, db1) \<Rightarrow> (Some e, db1)
         | (None, db1) \<Rightarrow>
             (case insert_entry uuid migration db1 of
                (Some e, db2) \<Rightarrow> (Some e, db2)
              | (None, db2) \<Rightarrow> migrate_loop eng uuid lastDbMigration rest db2))
      else migrate_loop eng uuid lastDbMigration rest db)"

definition migrate :: "engine \<Rightarrow> (nat \<Rightarrow> string) \<Rightarrow> migration_meta list \<Rightarrow> database \<Rightarrow> thrown option \<times> database" where
  "migrate eng uuid migrations db =
     (if migrations = [] then (None, db)
      else (let db1 = migrationTableCreate db in
            migrate_loop eng uuid (dbMigrations db1) migrations db1))"

text \<open>The row a migration leaves in the bookkeeping table, given its id.\<close>

definition entry_of :: "string \<Rightarrow> migration_meta \<Rightarrow> migration_entry" where
  "entry_of i migration = \<lparr>entry_id = i, entry_hash = m_hash migration, created_at = folderMillis migration\<rparr>"

definition table_rows :: "database \<Rightarrow> migration_entry list" where
  "table_rows db = (case migrations_table db of None \<Rightarrow> [] | Some rows \<Rightarrow> rows)"

text \<open>The rows that a run adds for the migrations it applies, the \<open>n\<close>-th UUID first.\<close>

fun new_entries :: "(nat \<Rightarrow> string) \<Rightarrow> nat \<Rightarrow> migration_meta list \<Rightarrow> migration_entry list" where
  "new_entries uuid n [] = []"
| "new_entries uuid n (m # ms) = entry_of (uuid n) m # new_entries uuid (Suc n) ms"

section \<open>JSON text (the built-ins \<open>JSON.stringify\<close> and \<open>JSON.parse\<close>)\<close>

text \<open>
  The two built-ins belong to the platform, not to the repository; they are modelled after
  ECMA-262 for the values of this theory. Strings are lists of 8-bit characters, so a
  \<open>\u\<close> escape denoting a code unit above \<open>00FF\<close> has no counterpart here, and neither has
  a number literal with a fraction or an exponent (numbers are integers here): the model of
  \<open>JSON.parse\<close> rejects both. Numbers are printed in plain decimal notation.
\<close>

subsection \<open>Serialisation\<close>

definition hex_digit :: "nat \<Rightarrow> char" where
  "hex_digit d = (if d < 10 then char_of (48 + d) else char_of (87 + d))"

definition escape_char :: "char \<Rightarrow> string" where
  "escape_char c =
     (let n = (of_char c :: nat) in
      if n = 0x22 then [CHR 0x5C, CHR 0x22]
      else if n = 0x5C then [CHR 0x5C, CHR 0x5C]
      else if n = 8 then [CHR 0x5C, CHR ''b'']
      else if n = 9 then [CHR 0x5C, CHR ''t'']
      else if n = 10 then [CHR 0x5C, CHR ''n'']
      else if n = 12 then [CHR 0x5C, CHR ''f'']
      else if n = 13 then [CHR 0x5C, CHR ''r'']
      else if n < 32 then
        [CHR 0x5C, CHR ''u'', CHR ''0'', CHR ''0'', hex_digit (n div 16), hex_digit (n mod 16)]
      else [c])"

definition QuoteJSONString :: "string \<Rightarrow> string" where
  "QuoteJSONString s = CHR 0x22 # concat (map escape_char s) @ [CHR 0x22]"

text \<open>
  The replacer of \<open>jsonStringifyWithBigInt\<close> (types.ts):
  \<open>typeof value === 'bigint' ? `BIGINT::${value.toString()}` : value\<close>.
\<close>

definition replacer :: "jsval \<Rightarrow> jsval" where
  "replacer v = (case v of JBigInt n \<Rightarrow> JStr (''BIGINT::'' @ int_toString n) | _ \<Rightarrow> v)"

lemma replacer_size: "size (replacer v) \<le> size v"
  by (cases v) (simp_all add: replacer_def)

lemma replacer_JArr: "replacer v = JArr xs \<Longrightarrow> v = JArr xs"
  by (cases v) (simp_all add: replacer_def)

lemma replacer_JObj: "replacer v = JObj kvs \<Longrightarrow> v = JObj kvs"
  by (cases v) (simp_all add: replacer_def)

text \<open>
  \<open>SerializeJSONProperty\<close> with this replacer: the replacer is applied to the value first,
  then the result is serialised by its type. \<open>Inr None\<close> is the result \<open>undefined\<close>; a
  \<open>bigint\<close> that reaches the type dispatch raises a \<open>TypeError\<close>. In an array \<open>undefined\<close>
  is written \<open>null\<close>; in an object the property is left out.
\<close>

function serialize :: "jsval \<Rightarrow> thrown + string option"
  and serialize_elems :: "jsval list \<Rightarrow> thrown + string list"
  and serialize_props :: "(string \<times> jsval) list \<Rightarrow> thrown + string list" where
  "serialize v =
     (case replacer v of
        JUndefined \<Rightarrow> Inr None
      | JNull \<Rightarrow> Inr (Some ''null'')
      | JBool b \<Rightarrow> Inr (Some (if b then ''true'' else ''false''))
      | JNum n \<Rightarrow> Inr (Some (decimal_toString n 0))
      | JDec m k \<Rightarrow> Inr (Some (decimal_toString m k))
      | JNaN \<Rightarrow> Inr (Some ''null'')
      | JStr s \<Rightarrow> Inr (Some (QuoteJSONString s))
      | JBigInt n \<Rightarrow> Inl TypeError
      | JArr xs \<Rightarrow>
          (case serialize_elems xs of
             Inl e \<Rightarrow> Inl e
           | Inr ts \<Rightarrow> Inr (Some (''['' @ join_with '','' ts @ '']'')))
      | JObj kvs \<Rightarrow>
          (case serialize_props kvs of
             Inl e \<Rightarrow> Inl e
           | Inr ts \<Rightarrow> Inr (Some (''{'' @ join_with '','' ts @ ''}''))))"
| "serialize_elems [] = Inr []"
| "serialize_elems (x # xs) =
     (case serialize x of
        Inl e \<Rightarrow> Inl e
      | Inr t \<Rightarrow>
          (case serialize_elems xs of
             Inl e \<Rightarrow> Inl e
           | Inr ts \<Rightarrow> Inr ((case t of None \<Rightarrow> ''null'' | Some s \<Rightarrow> s) # ts)))"
| "serialize_props [] = Inr []"
| "serialize_props ((k, v) # kvs) =
     (case serialize v of
        Inl e \<Rightarrow> Inl e
      | Inr t \<Rightarrow>
          (case serialize_props kvs of
             Inl e \<Rightarrow> Inl e
           | Inr ts \<Rightarrow>
               Inr ((case t of None \<Rightarrow> [] | Some s \<Rightarrow> [QuoteJSONString k @ '':'' @ s]) @ ts)))"
  by pat_completeness auto
termination
  by (relation "measure (\<lambda>x. case x of
          Inl v \<Rightarrow> 2 * size v
        | Inr (Inl xs) \<Rightarrow> 2 * size_list size xs + 1
        | Inr (Inr kvs) \<Rightarrow> 2 * size_list (size_prod (\<lambda>k. 0) size) kvs + 1)")
     (auto dest!: replacer_JArr replacer_JObj)

declare serialize.simps(1) [simp del]

text \<open>\<open>JSON.stringify(obj, replacer)\<close> and \<open>jsonStringifyWithBigInt\<close> (\<open>None\<close>: \<open>undefined\<close>).\<close>

definition jsonStringifyWithBigInt :: "jsval \<Rightarrow> thrown + string option" where
  "jsonStringifyWithBigInt obj = serialize obj"

subsection \<open>Parsing\<close>

definition is_ws :: "char \<Rightarrow> bool" where
  "is_ws c = (c = CHR 0x20 \<or> c = CHR 0x09 \<or> c = CHR 0x0A \<or> c = CHR 0x0D)"

definition skip_ws :: "string \<Rightarrow> string" where
  "skip_ws s = dropWhile is_ws s"

definition is_digit :: "char \<Rightarrow> bool" where
  "is_digit c = (let n = (of_char c :: nat) in 48 \<le> n \<and> n \<le> 57)"

definition digit_val :: "char \<Rightarrow> nat" where
  "digit_val c = of_char c - 48"

definition digits_value :: "string \<Rightarrow> nat" where
  "digits_value ds = foldl (\<lambda>a c. 10 * a + digit_val c) 0 ds"

definition hex_val :: "char \<Rightarrow> nat option" where
  "hex_val c =
     (let n = (of_char c :: nat) in
      if 48 \<le> n \<and> n \<le> 57 then Some (n - 48)
      else if 97 \<le> n \<and> n \<le> 102 then Some (n - 87)
      else if 65 \<le> n \<and> n \<le> 70 then Some (n - 55)
      else None)"

text \<open>The character an escape \<open>\c\<close> stands for (\<open>\u\<close> apart).\<close>

definition unescape :: "char \<Rightarrow> char option" where
  "unescape e =
     (if e = CHR 0x22 then Some (CHR 0x22)
      else if e = CHR 0x5C then Some (CHR 0x5C)
      else if e = CHR ''/'' then Some (CHR ''/'')
      else if e = CHR ''b'' then Some (CHR 0x08)
      else if e = CHR ''f'' then Some (CHR 0x0C)
      else if e = CHR ''n'' then Some (CHR 0x0A)
      else if e = CHR ''r'' then Some (CHR 0x0D)
      else if e = CHR ''t'' then Some (CHR 0x09)
      else None)"

text \<open>
  The answer of the parser: the value read (with the text that follows it); or the text is
  not JSON; or the text has, at the point reached, an escape \<open>\u\<close> that denotes a code unit
  above \<open>U+00FF\<close>, which the 8-bit strings of the model cannot hold. About a text of the
  last kind the model says nothing.
\<close>

datatype 'a parsed = Parsed 'a | Malformed | Unmodelled

text \<open>The next step runs on the result of a successful step; a failure is passed on.\<close>

fun then_parse :: "'a parsed \<Rightarrow> ('a \<Rightarrow> 'b parsed) \<Rightarrow> 'b parsed" where
  "then_parse (Parsed x) f = f x"
| "then_parse Malformed f = Malformed"
| "then_parse Unmodelled f = Unmodelled"

definition of_option :: "'a option \<Rightarrow> 'a parsed" where
  "of_option x = (case x of None \<Rightarrow> Malformed | Some y \<Rightarrow> Parsed y)"

text \<open>A string literal after its opening quote: the string and the text after the closing quote.\<close>

fun parse_string_body :: "string \<Rightarrow> (string \<times> string) parsed" where
  "parse_string_body [] = Malformed"
| "parse_string_body (c # cs) =
     (if c = CHR 0x22 then Parsed ([], cs)
      else if c = CHR 0x5C then
        (case cs of
           [] \<Rightarrow> Malformed
         | e # r \<Rightarrow>
             if e = CHR ''u'' then
               (case r of
                  h1 # h2 # h3 # h4 # r' \<Rightarrow>
                    (case hex_val h1 of None \<Rightarrow> Malformed | Some d1 \<Rightarrow>
                     case hex_val h2 of None \<Rightarrow> Malformed | Some d2 \<Rightarrow>
                     case hex_val h3 of None \<Rightarrow> Malformed | Some d3 \<Rightarrow>
                     case hex_val h4 of None \<Rightarrow> Malformed | Some d4 \<Rightarrow>
                       if d1 = 0 \<and> d2 = 0 then
                         then_parse (parse_string_body r')
                           (\<lambda>(s, rest). Parsed (char_of (d3 * 16 + d4) # s, rest))
                       else Unmodelled)
                | _ \<Rightarrow> Malformed)
             else
               (case unescape e of
                  None \<Rightarrow> Malformed
                | Some ch \<Rightarrow> then_parse (parse_string_body r) (\<lambda>(s, rest). Parsed (ch # s, rest))))
      else if (of_char c :: nat) < 32 then Malformed
      else then_parse (parse_string_body cs) (\<lambda>(s, rest). Parsed (c # s, rest)))"

text \<open>
  A number literal: an optional minus sign, an integer part without leading zeros, an
  optional fraction (a point and at least one digit) and an optional exponent (\<open>e\<close> or \<open>E\<close>,
  an optional sign, at least one digit). Its value is the integer written by the digits of
  the integer part and of the fraction, times the power of ten that the exponent and the
  length of the fraction give; \<open>mk_number\<close> brings \<open>m \<times> 10 ^ e\<close> to the form of the data
  domain.
\<close>

function mk_number :: "int \<Rightarrow> int \<Rightarrow> jsval" where
  "mk_number m e =
     (if 0 \<le> e then JNum (m * 10 ^ nat e)
      else if m mod 10 = 0 then mk_number (m div 10) (e + 1)
      else JDec m (nat (- e)))"
  by pat_completeness auto
termination
  by (relation "measure (\<lambda>(m, e). nat (- e))") auto

declare mk_number.simps [simp del]

definition int_part :: "string \<Rightarrow> string" where
  "int_part s = (if s \<noteq> [] \<and> hd s = CHR ''0'' then ''0'' else takeWhile is_digit s)"

definition parse_fraction :: "string \<Rightarrow> (string \<times> string) option" where
  "parse_fraction s =
     (if s \<noteq> [] \<and> hd s = CHR ''.'' then
        (let fr = takeWhile is_digit (tl s)
         in if fr = [] then None else Some (fr, drop (length fr) (tl s)))
      else Some ([], s))"

definition parse_exponent :: "string \<Rightarrow> (int \<times> string) option" where
  "parse_exponent s =
     (if s \<noteq> [] \<and> (hd s = CHR ''e'' \<or> hd s = CHR ''E'') then
        (let s1 = tl s;
             neg = (s1 \<noteq> [] \<and> hd s1 = CHR ''-'');
             s2 = (if s1 \<noteq> [] \<and> (hd s1 = CHR ''-'' \<or> hd s1 = CHR ''+'') then tl s1 else s1);
             ex = takeWhile is_digit s2
         in if ex = [] then None
            else Some (if neg then - int (digits_value ex) else int (digits_value ex),
                       drop (length ex) s2))
      else Some (0, s))"

text \<open>The literal without its sign: the digits as a natural number, the power of ten, the rest.\<close>

definition parse_unsigned :: "string \<Rightarrow> ((nat \<times> int) \<times> string) option" where
  "parse_unsigned s =
     (let ip = int_part s in
      if ip = [] then None
      else (case parse_fraction (drop (length ip) s) of
              None \<Rightarrow> None
            | Some (fr, s2) \<Rightarrow>
                (case parse_exponent s2 of
                   None \<Rightarrow> None
                 | Some (e, rest) \<Rightarrow> Some ((digits_value (ip @ fr), e - int (length fr)), rest))))"

definition parse_number :: "string \<Rightarrow> (jsval \<times> string) option" where
  "parse_number s =
     (if s \<noteq> [] \<and> hd s = CHR ''-''
      then map_option (\<lambda>((m, e), rest). (mk_number (- int m) e, rest)) (parse_unsigned (tl s))
      else map_option (\<lambda>((m, e), rest). (mk_number (int m) e, rest)) (parse_unsigned s))"

definition strip_prefix :: "string \<Rightarrow> string \<Rightarrow> string option" where
  "strip_prefix p s = (if take (length p) s = p then Some (drop (length p) s) else None)"

text \<open>
  Defining a property of an object under construction: an existing key keeps its place and
  takes the new value (the later of two equal keys in a JSON text wins).
\<close>

fun define_property :: "string \<Rightarrow> jsval \<Rightarrow> (string \<times> jsval) list \<Rightarrow> (string \<times> jsval) list" where
  "define_property k v [] = [(k, v)]"
| "define_property k v ((k', v') # kvs) =
     (if k' = k then (k, v) # kvs else (k', v') # define_property k v kvs)"

definition object_of_members :: "(string \<times> jsval) list \<Rightarrow> (string \<times> jsval) list" where
  "object_of_members ms = foldl (\<lambda>obj (k, v). define_property k v obj) [] ms"

text \<open>
  The grammar, by recursive descent. The first argument bounds the depth of the recursion;
  \<open>JSON_parse_text\<close> supplies more than any text needs: every larger bound gives the same
  answer (\<open>JSON_parse_text_fuel\<close> below).
\<close>

fun parse_value :: "nat \<Rightarrow> string \<Rightarrow> (jsval \<times> string) parsed"
  and parse_elements :: "nat \<Rightarrow> string \<Rightarrow> (jsval list \<times> string) parsed"
  and parse_members :: "nat \<Rightarrow> string \<Rightarrow> ((string \<times> jsval) list \<times> string) parsed" where
  "parse_value 0 s = Malformed"
| "parse_value (Suc n) [] = Malformed"
| "parse_value (Suc n) (c # cs) =
     (if c = CHR ''['' then
        (if skip_ws cs \<noteq> [] \<and> hd (skip_ws cs) = CHR '']'' then Parsed (JArr [], tl (skip_ws cs))
         else then_parse (parse_elements n (skip_ws cs)) (\<lambda>(xs, rest). Parsed (JArr xs, rest)))
      else if c = CHR ''{'' then
        (if skip_ws cs \<noteq> [] \<and> hd (skip_ws cs) = CHR ''}'' then Parsed (JObj [], tl (skip_ws cs))
         else then_parse (parse_members n (skip_ws cs))
                (\<lambda>(ms, rest). Parsed (JObj (object_of_members ms), rest)))
      else if c = CHR 0x22 then
        then_parse (parse_string_body cs) (\<lambda>(s, rest). Parsed (JStr s, rest))
      else if c = CHR ''n'' then of_option (map_option (Pair JNull) (strip_prefix ''ull'' cs))
      else if c = CHR ''t'' then of_option (map_option (Pair (JBool True)) (strip_prefix ''rue'' cs))
      else if c = CHR ''f'' then of_option (map_option (Pair (JBool False)) (strip_prefix ''alse'' cs))
      else of_option (parse_number (c # cs)))"
| "parse_elements 0 s = Malformed"
| "parse_elements (Suc n) s =
     then_parse (parse_value n s)
       (\<lambda>(x, r).
          case skip_ws r of
            [] \<Rightarrow> Malformed
          | d # r1 \<Rightarrow>
              if d = CHR '']'' then Parsed ([x], r1)
              else if d = CHR '','' then
                then_parse (parse_elements n (skip_ws r1)) (\<lambda>(xs, rest). Parsed (x # xs, rest))
              else Malformed)"
| "parse_members 0 s = Malformed"
| "parse_members (Suc n) s =
     (case s of
        [] \<Rightarrow> Malformed
      | q # s1 \<Rightarrow>
          if q \<noteq> CHR 0x22 then Malformed
          else then_parse (parse_string_body s1)
                 (\<lambda>(k, r).
                    case skip_ws r of
                      [] \<Rightarrow> Malformed
                    | colon # r1 \<Rightarrow>
                        if colon \<noteq> CHR '':'' then Malformed
                        else then_parse (parse_value n (skip_ws r1))
                               (\<lambda>(v, r2).
                                  case skip_ws r2 of
                                    [] \<Rightarrow> Malformed
                                  | d # r3 \<Rightarrow>
                                      if d = CHR ''}'' then Parsed ([(k, v)], r3)
                                      else if d = CHR '','' then
                                        then_parse (parse_members n (skip_ws r3))
                                          (\<lambda>(ms, rest). Parsed ((k, v) # ms, rest))
                                      else Malformed)))"

definition JSON_parse_text :: "string \<Rightarrow> jsval parsed" where
  "JSON_parse_text text =
     then_parse (parse_value (2 * length text + 2) (skip_ws text))
       (\<lambda>(v, rest). if skip_ws rest = [] then Parsed v else Malformed)"



text \<open>The text \<open>r\<close> is the end of the text \<open>s\<close>.\<close>

definition ends_with :: "string \<Rightarrow> string \<Rightarrow> bool" where
  "ends_with s r = (\<exists>p. s = p @ r)"

subsection \<open>The reviver walk\<close>

text \<open>
  \<open>BigInt(string)\<close>: surrounding white space is dropped; the empty string is \<open>0n\<close>; a
  literal is a decimal number with an optional sign, or an unsigned binary, octal or
  hexadecimal number with its prefix; anything else raises a \<open>SyntaxError\<close>.
\<close>

definition is_str_ws :: "char \<Rightarrow> bool" where
  "is_str_ws c = ((of_char c :: nat) \<in> {9, 10, 11, 12, 13, 32, 160})"

definition trim :: "string \<Rightarrow> string" where
  "trim s = rev (dropWhile is_str_ws (rev (dropWhile is_str_ws s)))"

definition radix_value :: "nat \<Rightarrow> string \<Rightarrow> nat option" where
  "radix_value radix ds =
     (if ds \<noteq> [] \<and> list_all (\<lambda>c. case hex_val c of None \<Rightarrow> False | Some d \<Rightarrow> d < radix) ds
      then Some (foldl (\<lambda>a c. radix * a + the (hex_val c)) 0 ds)
      else None)"

definition radix_of_prefix :: "string \<Rightarrow> nat option" where
  "radix_of_prefix t =
     (case t of
        z # x # ds \<Rightarrow>
          if z \<noteq> CHR ''0'' then None
          else if x = CHR ''x'' \<or> x = CHR ''X'' then Some 16
          else if x = CHR ''o'' \<or> x = CHR ''O'' then Some 8
          else if x = CHR ''b'' \<or> x = CHR ''B'' then Some 2
          else None
      | _ \<Rightarrow> None)"

definition BigInt_of_string :: "string \<Rightarrow> thrown + int" where
  "BigInt_of_string s =
     (let t = trim s in
      if t = [] then Inr 0
      else (case radix_of_prefix t of
              Some radix \<Rightarrow>
                (case radix_value radix (drop 2 t) of
                   None \<Rightarrow> Inl SyntaxError
                 | Some n \<Rightarrow> Inr (int n))
            | None \<Rightarrow>
                (let neg = (hd t = CHR ''-'');
                     ds = (if hd t = CHR ''-'' \<or> hd t = CHR ''+'' then tl t else t)
                 in case radix_value 10 ds of
                      None \<Rightarrow> Inl SyntaxError
                    | Some n \<Rightarrow> Inr (if neg then - int n else int n))))"

text \<open>
  The reviver of \<open>jsonParseWithBigInt\<close> (types.ts): a string value that starts with
  \<open>BIGINT::\<close> becomes \<open>BigInt(value.substring(8))\<close>.
\<close>

definition reviver :: "jsval \<Rightarrow> thrown + jsval" where
  "reviver v =
     (case v of
        JStr s \<Rightarrow>
          if take 8 s = ''BIGINT::'' then
            (case BigInt_of_string (drop 8 s) of Inl e \<Rightarrow> Inl e | Inr n \<Rightarrow> Inr (JBigInt n))
          else Inr v
      | _ \<Rightarrow> Inr v)"

text \<open>
  \<open>InternalizeJSONProperty\<close>: the elements of an array and the values of an object are
  revived first, left to right, then the value itself. A value revived to \<open>undefined\<close> is
  deleted: an array keeps a hole there (read as \<open>undefined\<close>), an object loses the property.
\<close>

fun internalize :: "(jsval \<Rightarrow> thrown + jsval) \<Rightarrow> jsval \<Rightarrow> thrown + jsval"
  and internalize_elems :: "(jsval \<Rightarrow> thrown + jsval) \<Rightarrow> jsval list \<Rightarrow> thrown + jsval list"
  and internalize_props ::
    "(jsval \<Rightarrow> thrown + jsval) \<Rightarrow> (string \<times> jsval) list \<Rightarrow> thrown + (string \<times> jsval) list" where
  "internalize rv (JArr xs) =
     (case internalize_elems rv xs of Inl e \<Rightarrow> Inl e | Inr ys \<Rightarrow> rv (JArr ys))"
| "internalize rv (JObj kvs) =
     (case internalize_props rv kvs of Inl e \<Rightarrow> Inl e | Inr kvs' \<Rightarrow> rv (JObj kvs'))"
| "internalize rv v = rv v"
| "internalize_elems rv [] = Inr []"
| "internalize_elems rv (x # xs) =
     (case internalize rv x of
        Inl e \<Rightarrow> Inl e
      | Inr y \<Rightarrow>
          (case internalize_elems rv xs of Inl e \<Rightarrow> Inl e | Inr ys \<Rightarrow> Inr (y # ys)))"
| "internalize_props rv [] = Inr []"
| "internalize_props rv ((k, v) # kvs) =
     (case internalize rv v of
        Inl e \<Rightarrow> Inl e
      | Inr y \<Rightarrow>
          (case internalize_props rv kvs of
             Inl e \<Rightarrow> Inl e
           | Inr kvs' \<Rightarrow> Inr (if y = JUndefined then kvs' else (k, y) # kvs')))"

text \<open>
  \<open>JSON.parse(text, reviver)\<close>: a \<open>SyntaxError\<close> when the text is not JSON, else the walk
  over the value read. The result is \<open>None\<close> when the text is outside the model.
\<close>

definition JSON_parse :: "(jsval \<Rightarrow> thrown + jsval) \<Rightarrow> string \<Rightarrow> (thrown + jsval) option" where
  "JSON_parse rv text =
     (case JSON_parse_text text of
        Parsed v \<Rightarrow> Some (internalize rv v)
      | Malformed \<Rightarrow> Some (Inl SyntaxError)
      | Unmodelled \<Rightarrow> None)"

definition jsonParseWithBigInt :: "string \<Rightarrow> (thrown + jsval) option" where
  "jsonParseWithBigInt json = JSON_parse reviver json"

text \<open>
  \<open>jsonParseWithBigInt(jsonStringifyWithBigInt(v))\<close>; \<open>undefined\<close> handed to \<open>JSON.parse\<close>
  is converted to the text \<open>undefined\<close>.
\<close>

definition parse_of_stringify :: "jsval \<Rightarrow> (thrown + jsval) option" where
  "parse_of_stringify v =
     (case jsonStringifyWithBigInt v of
        Inl e \<Rightarrow> Some (Inl e)
      | Inr None \<Rightarrow> jsonParseWithBigInt ''undefined''
      | Inr (Some text) \<Rightarrow> jsonParseWithBigInt text)"

section \<open>Snapshot sync (sync.ts)\<close>

text \<open>
  The engine: its database state, of any type, and the arguments of the calls of
  \<open>applyChanges\<close> made so far. What \<open>pullChanges(0n)\<close> and \<open>applyChanges(changes)\<close> do to
  a state is the engine's business and is taken as a parameter.
\<close>

record 'db crsqlite =
  db_state :: 'db
  applied :: "jsval list"

definition getChangeset :: "('db \<Rightarrow> thrown + jsval) \<Rightarrow> 'db crsqlite \<Rightarrow> thrown + string option" where
  "getChangeset pullChanges c =
     (case pullChanges (db_state c) of
        Inl e \<Rightarrow> Inl e
      | Inr changes \<Rightarrow> jsonStringifyWithBigInt changes)"






section \<open>Auxiliary notions for the round-trip proof\<close>

text \<open>
  The values that \<open>jsonStringifyWithBigInt\<close> and \<open>jsonParseWithBigInt\<close> carry through
  unchanged: \<open>null\<close>, booleans, numbers, strings that do not start with \<open>BIGINT::\<close>,
  \<open>bigint\<close>s, and arrays and objects (with distinct keys) of such values. (A number that is
  not an integer is in the form of the data domain.)
\<close>

fun roundtrip_safe :: "jsval \<Rightarrow> bool" where
  "roundtrip_safe JUndefined = False"
| "roundtrip_safe JNull = True"
| "roundtrip_safe (JBool b) = True"
| "roundtrip_safe (JNum n) = True"
| "roundtrip_safe (JDec m k) = (0 < k \<and> m mod 10 \<noteq> 0)"
| "roundtrip_safe JNaN = False"
| "roundtrip_safe (JStr s) = (take 8 s \<noteq> ''BIGINT::'')"
| "roundtrip_safe (JBigInt n) = True"
| "roundtrip_safe (JArr xs) = (\<forall>x \<in> set xs. roundtrip_safe x)"
| "roundtrip_safe (JObj kvs) = (distinct (map fst kvs) \<and> (\<forall>v \<in> set (map snd kvs). roundtrip_safe v))"

text \<open>
  A changeset as the wire format describes it: an array of 8-tuples with \<open>bigint\<close>s at the
  indices 2, 3 and 4 and JSON-shaped values elsewhere.
\<close>

fun json_shaped :: "jsval \<Rightarrow> bool" where
  "json_shaped JNull = True"
| "json_shaped (JBool b) = True"
| "json_shaped (JNum n) = True"
| "json_shaped (JDec m k) = (0 < k \<and> m mod 10 \<noteq> 0)"
| "json_shaped (JStr s) = True"
| "json_shaped (JArr xs) = (\<forall>x \<in> set xs. json_shaped x)"
| "json_shaped (JObj kvs) = (distinct (map fst kvs) \<and> (\<forall>v \<in> set (map snd kvs). json_shaped v))"
| "json_shaped v = False"

definition is_bigint :: "jsval \<Rightarrow> bool" where
  "is_bigint v = (case v of JBigInt n \<Rightarrow> True | _ \<Rightarrow> False)"

definition is_change_tuple :: "jsval \<Rightarrow> bool" where
  "is_change_tuple t =
     (case t of
        JArr [tbl, pk, v2, v3, v4, c5, c6, c7] \<Rightarrow>
          json_shaped tbl \<and> json_shaped pk \<and> is_bigint v2 \<and> is_bigint v3 \<and> is_bigint v4
          \<and> json_shaped c5 \<and> json_shaped c6 \<and> json_shaped c7
      | _ \<Rightarrow> False)"

definition is_changeset :: "jsval \<Rightarrow> bool" where
  "is_changeset v = (case v of JArr ts \<Rightarrow> list_all is_change_tuple ts | _ \<Rightarrow> False)"

text \<open>The value after the replacer has been applied throughout, and its JSON text.\<close>

fun tagged :: "jsval \<Rightarrow> jsval" where
  "tagged (JBigInt n) = JStr (''BIGINT::'' @ int_toString n)"
| "tagged (JArr xs) = JArr (map tagged xs)"
| "tagged (JObj kvs) = JObj (map (\<lambda>(k, v). (k, tagged v)) kvs)"
| "tagged v = v"

fun json_text :: "jsval \<Rightarrow> string"
  and elements_text :: "jsval list \<Rightarrow> string"
  and members_text :: "(string \<times> jsval) list \<Rightarrow> string" where
  "json_text (JArr xs) = CHR ''['' # elements_text xs"
| "json_text (JObj kvs) = CHR ''{'' # members_text kvs"
| "json_text (JStr s) = QuoteJSONString s"
| "json_text (JNum n) = decimal_toString n 0"
| "json_text (JDec m k) = decimal_toString m k"
| "json_text (JBool b) = (if b then ''true'' else ''false'')"
| "json_text v = ''null''"
| "elements_text [] = '']''"
| "elements_text (x # xs) =
     json_text x @ (if xs = [] then '']'' else CHR '','' # elements_text xs)"
| "members_text [] = ''}''"
| "members_text ((k, v) # kvs) =
     QuoteJSONString k @ CHR '':'' # json_text v @ (if kvs = [] then ''}'' else CHR '','' # members_text kvs)"

text \<open>What may follow a value in a JSON text without white space: nothing, or a delimiter.\<close>

definition delimited :: "string \<Rightarrow> bool" where
  "delimited rest = (rest = [] \<or> hd rest = CHR '','' \<or> hd rest = CHR '']'' \<or> hd rest = CHR ''}'')"

text \<open>No string value starts with the tag \<open>BIGINT::\<close>.\<close>

fun untagged :: "jsval \<Rightarrow> bool" where
  "untagged (JStr s) = (take 8 s \<noteq> ''BIGINT::'')"
| "untagged (JArr xs) = (\<forall>x \<in> set xs. untagged x)"
| "untagged (JObj kvs) = (\<forall>v \<in> set (map snd kvs). untagged v)"
| "untagged v = True"

section \<open>Properties of structural equality\<close>

text \<open>
  On a value whose objects hold each key once and have no own property \<open>constructor\<close>,
  \<open>deepEqual\<close> is reflexive. The guard \<open>key && ...\<close> of the key loop leaves the property
  named by the empty string uncompared, and two objects whose own property \<open>constructor\<close>
  holds an array are never equal.
\<close>

lemma deepEqual_props_refl:
  "distinct (map fst bs) \<Longrightarrow> set as \<subseteq> set bs \<Longrightarrow> (\<forall>v \<in> set (map snd as). deepEqual v v)
     \<Longrightarrow> deepEqual_props as bs"
proof (induction as)
  case Nil
  then show ?case by simp
next
  case (Cons a as)
  obtain k v where a: "a = (k, v)" by (cases a)
  have "map_of bs k = Some v" using Cons.prems a by simp
  then show ?case using Cons a by simp
qed

lemma deepEqual_elems_refl: "(\<forall>x \<in> set xs. deepEqual x x) \<Longrightarrow> deepEqual_elems xs xs"
  by (induction xs) simp_all

lemma same_constructor_inherited:
  "''constructor'' \<notin> set (map fst as) \<Longrightarrow> ''constructor'' \<notin> set (map fst bs) \<Longrightarrow> same_constructor as bs"
  by (simp add: same_constructor_def map_of_eq_None_iff [THEN iffD2])

lemma deepEqual_refl: "wf_val v \<Longrightarrow> deepEqual v v"
proof (induction v rule: wf_val.induct)
  case (1 xs)
  then show ?case by (simp add: deepEqual.simps(1) strict_eq_prim_def deepEqual_elems_refl)
next
  case (2 kvs)
  then have "deepEqual_props kvs kvs" by (intro deepEqual_props_refl) auto
  moreover have "same_constructor kvs kvs" using 2 by (intro same_constructor_inherited) auto
  ultimately show ?case by (simp add: deepEqual.simps(1) strict_eq_prim_def)
qed (simp_all add: deepEqual.simps(1) strict_eq_prim_def)

lemma deepEqual_skips_empty_key:
  "deepEqual (JObj [([], JNum 1)]) (JObj [([], JNum 2)])"
  by (simp add: deepEqual.simps(1) strict_eq_prim_def same_constructor_def)

lemma deepEqual_own_constructor:
  "\<not> deepEqual (JObj [(''constructor'', JArr [JNum 1])]) (JObj [(''constructor'', JArr [JNum 1])])"
  by (simp add: deepEqual.simps(1) strict_eq_prim_def same_constructor_def)

section \<open>Properties of the live-query engine\<close>

lemma subscribe_registration_order:
  "fst cb \<notin> set (map fst (subscribers q)) \<Longrightarrow>
   subscribers (fst (snd (subscribe cb q))) = subscribers q @ [cb]"
  by (simp add: subscribe_def Let_def split: option.splits)

lemma subscribe_distinct:
  "distinct (map fst (subscribers q)) \<Longrightarrow> distinct (map fst (subscribers (fst (snd (subscribe cb q)))))"
  by (simp add: subscribe_def Let_def split: option.splits)

lemma notify_each_never_throws:
  "never_throws subs \<Longrightarrow>
   notify_each subs d = (Inr (), if d = JUndefined then [] else map (\<lambda>sub. Notified (fst sub) d) subs)"
  by (induction subs) (auto simp: never_throws_def)


lemma received_append: "received s (xs @ ys) = received s xs @ received s ys"
  by (induction s xs rule: received.induct) auto

lemma received_notified_map:
  "distinct (map fst subs) \<Longrightarrow>
   received s (map (\<lambda>sub. Notified (fst sub) d) subs) = (if s \<in> fst ` set subs then [d] else [])"
  by (induction subs) (auto simp: image_iff)

lemma refetch_settle_Resolved:
  "never_throws (subscribers q) \<Longrightarrow>
   refetch_settle (Resolved v) q =
     (Inr (),
      (if \<not> deepEqual (data q) v then q\<lparr>data := v, error := None, loading := False\<rparr>
       else q\<lparr>error := None, loading := False\<rparr>),
      (if \<not> deepEqual (data q) v \<and> v \<noteq> JUndefined
       then map (\<lambda>sub. Notified (fst sub) v) (subscribers q) else []))"
  by (simp add: refetch_settle_def refetch_try_def notifySubscribers_def notify_each_never_throws Let_def)

lemma refetch_settle_Rejected:
  "refetch_settle (Rejected e) q =
     (Inr (), q\<lparr>error := Some (wrap_error e), loading := False\<rparr>, [ConsoleError (lq_id q) e])"
  by (simp add: refetch_settle_def refetch_try_def refetch_catch_def)

text \<open>
  The invariant behind C1: what a subscriber receives during a run has no two adjacent equal
  entries, and its first entry differs from the data the run started with.
\<close>

lemma lq_run_received:
  assumes "never_throws subs" and "distinct (map fst subs)"
  shows "subscribers q = subs \<Longrightarrow> RefetchSettle (Resolved JUndefined) \<notin> set steps \<Longrightarrow>
     adjacent_differ (received s (snd (lq_run steps q))) \<and>
     (s \<notin> fst ` set subs \<longrightarrow> received s (snd (lq_run steps q)) = []) \<and>
     (data q \<noteq> JUndefined \<longrightarrow> received s (snd (lq_run steps q)) \<noteq> [] \<longrightarrow>
        \<not> deepEqual (data q) (hd (received s (snd (lq_run steps q)))))"
proof (induction steps arbitrary: q)
  case Nil
  then show ?case by simp
next
  case (Cons step steps)
  have nt: "never_throws (subscribers q)" using assms Cons.prems by simp
  have rest_ok: "RefetchSettle (Resolved JUndefined) \<notin> set steps" using Cons.prems by simp
  show ?case
  proof (cases step)
    case RefetchBegin
    let ?q1 = "snd (refetch_begin q)"
    have "subscribers ?q1 = subs" "data ?q1 = data q"
      using Cons.prems by (simp_all add: refetch_begin_def)
    then show ?thesis using Cons.IH [of ?q1] rest_ok RefetchBegin by simp
  next
    case (RefetchSettle r)
    let ?q1 = "fst (snd (refetch_settle r q))"
    let ?rest = "received s (snd (lq_run steps ?q1))"
    have subs1: "subscribers ?q1 = subs"
      using Cons.prems nt by (cases r) (simp_all add: refetch_settle_Resolved refetch_settle_Rejected)
    have ih: "adjacent_differ ?rest" "s \<notin> fst ` set subs \<longrightarrow> ?rest = []"
       "data ?q1 \<noteq> JUndefined \<longrightarrow> ?rest \<noteq> [] \<longrightarrow> \<not> deepEqual (data ?q1) (hd ?rest)"
      using Cons.IH [OF subs1 rest_ok] by simp_all
    have ev: "received s (snd (lq_run (step # steps) q))
        = received s (snd (snd (refetch_settle r q))) @ ?rest"
      using RefetchSettle by (simp add: received_append split: prod.splits)
    show ?thesis
    proof (cases r)
      case (Rejected e)
      then have "received s (snd (snd (refetch_settle r q))) = []" "data ?q1 = data q"
        by (simp_all add: refetch_settle_Rejected)
      then show ?thesis using ih ev by simp
    next
      case (Resolved v)
      have vdef: "v \<noteq> JUndefined" using Cons.prems Resolved RefetchSettle by auto
      show ?thesis
      proof (cases "deepEqual (data q) v")
        case True
        then have "received s (snd (snd (refetch_settle r q))) = []" "data ?q1 = data q"
          using Resolved nt by (simp_all add: refetch_settle_Resolved)
        then show ?thesis using ih ev by simp
      next
        case False
        then have d1: "data ?q1 = v"
          and r1: "received s (snd (snd (refetch_settle r q))) = (if s \<in> fst ` set subs then [v] else [])"
          using Resolved nt vdef assms(2) Cons.prems
          by (simp_all add: refetch_settle_Resolved received_notified_map)
        show ?thesis
        proof (cases "s \<in> fst ` set subs")
          case True
          then have rc: "received s (snd (lq_run (step # steps) q)) = v # ?rest"
            using ev r1 by simp
          show ?thesis unfolding rc using ih d1 vdef False True
            by (cases ?rest) auto
        next
          case F2: False
          then have rc: "received s (snd (lq_run (step # steps) q)) = []"
            using ev r1 ih by simp
          show ?thesis unfolding rc using F2 by simp
        qed
      qed
    qed
  qed
qed

text \<open>
  C1 (amended). When the builder call of a refetch succeeds, the new result is compared with
  the previous data by \<open>deepEqual\<close>. The subscribers are notified, each with the new data
  and in registration order, if and only if the two differ and the new data is not
  \<open>undefined\<close> (\<open>notifySubscribers\<close> never calls a subscriber with \<open>undefined\<close>). So in
  every history of a live query, overlapping refetches included, in which the builder never
  resolves to \<open>undefined\<close>, no two consecutive notifications that the refetches deliver to a
  subscriber carry data that \<open>deepEqual\<close> judges equal. Both parts are about subscribers
  that do not throw and a set of subscribers that does not change during the history.
\<close>

theorem refetch_notifies_on_defined_change:
  assumes "never_throws (subscribers q)" and "distinct (map fst (subscribers q))"
  shows "snd (snd (refetch_settle (Resolved v) q)) =
           (if \<not> deepEqual (data q) v \<and> v \<noteq> JUndefined
            then map (\<lambda>sub. Notified (fst sub) v) (subscribers q) else [])
         \<and> (RefetchSettle (Resolved JUndefined) \<notin> set steps \<longrightarrow>
              adjacent_differ (received s (snd (lq_run steps q))))"
  using assms lq_run_received [of "subscribers q" q steps s] by (simp add: refetch_settle_Resolved)

theorem refetch_notifies_on_defined_change_witness:
  "never_throws [(1, \<lambda>d. None)] \<and> distinct (map fst [(1 :: nat, \<lambda>d :: jsval. None :: thrown option)])
   \<and> snd (snd (refetch_settle (Resolved (JNum 1))
        \<lparr>lq_id = 1, data = JUndefined, error = None, loading = True,
         subscribers = [(1, \<lambda>d. None)], tableDeps = []\<rparr>)) = [Notified 1 (JNum 1)]
   \<and> received 1 (snd (lq_run
        [RefetchBegin, RefetchSettle (Resolved (JNum 1)), RefetchBegin, RefetchBegin,
         RefetchSettle (Rejected (ErrorObj ''no such table'')), RefetchSettle (Resolved (JNum 1)),
         RefetchBegin, RefetchSettle (Resolved (JNum 2))]
        \<lparr>lq_id = 1, data = JUndefined, error = None, loading = True,
         subscribers = [(1, \<lambda>d. None)], tableDeps = []\<rparr>)) = [JNum 1, JNum 2]
   \<and> adjacent_differ [JNum 1, JNum 2]"
proof -
  let ?q = "\<lparr>lq_id = 1, data = JUndefined, error = None, loading = True,
         subscribers = [(1, \<lambda>d. None)], tableDeps = []\<rparr>"
  let ?steps = "[RefetchBegin, RefetchSettle (Resolved (JNum 1)), RefetchBegin, RefetchBegin,
         RefetchSettle (Rejected (ErrorObj ''no such table'')), RefetchSettle (Resolved (JNum 1)),
         RefetchBegin, RefetchSettle (Resolved (JNum 2))]"
  have run: "received 1 (snd (lq_run ?steps ?q)) = [JNum 1, JNum 2]"
    by (simp add: refetch_begin_def refetch_settle_def refetch_try_def refetch_catch_def
        notifySubscribers_def deepEqual.simps(1) strict_eq_prim_def Let_def)
  have hyps: "never_throws (subscribers ?q)" "distinct (map fst (subscribers ?q))"
    by (simp_all add: never_throws_def)
  show ?thesis
    using refetch_notifies_on_defined_change [OF hyps, of "JNum 1" ?steps 1] run hyps
    by (simp add: deepEqual.simps(1) strict_eq_prim_def)
qed

text \<open>
  C1 as stated fails. A builder that reads one row with \<open>get()\<close> resolves to the row, then
  to \<open>undefined\<close> once the row is deleted, then to the same row again: the second refetch
  replaces the data and notifies nobody, the third notifies with the data of the first.
  And when the data changes from 1 to 2 and back while the first subscriber throws on 2,
  the second subscriber misses 2 and receives 1 twice in a row.
\<close>

theorem refetch_undefined_repeats_notification:
  "snd (snd (refetch (Resolved JUndefined)
      \<lparr>lq_id = 1, data = JNum 1, error = None, loading = False,
       subscribers = [(1, \<lambda>d. None)], tableDeps = [''users'']\<rparr>)) = []
   \<and> \<not> deepEqual (JNum 1) JUndefined
   \<and> received 1 (snd (lq_run
        [RefetchBegin, RefetchSettle (Resolved (JNum 1)),
         RefetchBegin, RefetchSettle (Resolved JUndefined),
         RefetchBegin, RefetchSettle (Resolved (JNum 1))]
      \<lparr>lq_id = 1, data = JUndefined, error = None, loading = True,
       subscribers = [(1, \<lambda>d. None)], tableDeps = []\<rparr>)) = [JNum 1, JNum 1]
   \<and> received 2 (snd (lq_run
        [RefetchBegin, RefetchSettle (Resolved (JNum 1)),
         RefetchBegin, RefetchSettle (Resolved (JNum 2)),
         RefetchBegin, RefetchSettle (Resolved (JNum 1))]
      \<lparr>lq_id = 1, data = JUndefined, error = None, loading = True,
       subscribers = [(1, \<lambda>d. if d = JNum 2 then Some (ErrorObj ''boom'') else None), (2, \<lambda>d. None)],
       tableDeps = []\<rparr>)) = [JNum 1, JNum 1]
   \<and> deepEqual (JNum 1) (JNum 1)"
  by (simp add: refetch_def refetch_begin_def refetch_settle_def refetch_try_def refetch_catch_def
      notifySubscribers_def deepEqual.simps(1) strict_eq_prim_def Let_def)





section \<open>Properties of the change router\<close>

lemma refetch_start_deps:
  "map_option tableDeps (objects (refetch_start i w) j) = map_option tableDeps (objects w j)"
  by (auto simp: refetch_start_def refetch_begin_def split: option.splits)

lemma hasOverlap_refetch_start: "hasOverlap t (refetch_start i w) j = hasOverlap t w j"
  using refetch_start_deps [of i w j]
  by (auto simp: hasOverlap_def split: option.splits)

lemma refetch_start_effect:
  "hasOverlap t w i \<Longrightarrow>
   map fst (suspended (refetch_start i w)) = map fst (suspended w) @ [i] \<and>
   builderCalls (refetch_start i w) = builderCalls w @ [i]"
  by (auto simp: refetch_start_def hasOverlap_def refetch_begin_def split: option.splits)

lemma router_fold:
  "map fst (suspended (foldl (\<lambda>w1 i. if hasOverlap t w1 i then refetch_start i w1 else w1) w ids))
     = map fst (suspended w) @ filter (hasOverlap t w) ids
   \<and> builderCalls (foldl (\<lambda>w1 i. if hasOverlap t w1 i then refetch_start i w1 else w1) w ids)
     = builderCalls w @ filter (hasOverlap t w) ids"
proof (induction ids arbitrary: w)
  case Nil
  then show ?case by simp
next
  case (Cons i ids)
  show ?case
  proof (cases "hasOverlap t w i")
    case True
    have eq: "hasOverlap t (refetch_start i w) = hasOverlap t w"
      by (rule ext) (rule hasOverlap_refetch_start)
    show ?thesis using Cons.IH [of "refetch_start i w"] True refetch_start_effect [OF True]
      by (simp add: eq)
  next
    case False
    then show ?thesis using Cons.IH [of w] by simp
  qed
qed

lemma change_callback_starts_refetch_at_once:
  "map fst (suspended (onTablesChanged t w)) = map fst (suspended w) @ affected t w
   \<and> builderCalls (onTablesChanged t w) = builderCalls w @ affected t w"
  unfolding onTablesChanged_def affected_def by (rule router_fold)

lemma refetch_start_registry: "liveQueries (refetch_start i w) = liveQueries w"
  by (auto simp: refetch_start_def split: option.splits prod.splits)

lemma router_fold_preserves:
  "liveQueries (foldl (\<lambda>w1 i. if hasOverlap t w1 i then refetch_start i w1 else w1) w ids) = liveQueries w
   \<and> hasOverlap t' (foldl (\<lambda>w1 i. if hasOverlap t w1 i then refetch_start i w1 else w1) w ids) j
       = hasOverlap t' w j"
  by (induction ids arbitrary: w) (simp_all add: refetch_start_registry hasOverlap_refetch_start)

lemma affected_onTablesChanged: "affected t' (onTablesChanged t w) = affected t' w"
proof -
  have "hasOverlap t' (onTablesChanged t w) = hasOverlap t' w"
    by (rule ext) (simp add: onTablesChanged_def router_fold_preserves)
  then show ?thesis
    by (simp add: affected_def onTablesChanged_def router_fold_preserves)
qed

text \<open>
  C3 (amended). There is no serialisation: \<open>onTablesChanged\<close> calls \<open>refetch()\<close> of every
  registered query whose dependency set holds the changed table, and \<open>refetch()\<close> calls the
  builder at once, whether or not earlier refetches of that query are still suspended. So
  \<open>n\<close> change events for a table start \<open>n\<close> refetches of each dependent query, all in
  flight together; nothing is coalesced.
\<close>

theorem change_callbacks_not_coalesced:
  "map fst (suspended ((onTablesChanged t ^^ n) w))
     = map fst (suspended w) @ concat (replicate n (affected t w))
   \<and> builderCalls ((onTablesChanged t ^^ n) w)
     = builderCalls w @ concat (replicate n (affected t w))
   \<and> affected t ((onTablesChanged t ^^ n) w) = affected t w"
proof (induction n)
  case 0
  then show ?case by simp
next
  case (Suc n)
  have snoc: "concat (replicate n xs) @ xs = concat (replicate (Suc n) xs)" for xs :: "nat list"
    by (induction n) simp_all
  from Suc show ?case
    by (simp add: change_callback_starts_refetch_at_once affected_onTablesChanged snoc
        del: replicate_Suc)
qed

text \<open>
  C3 as stated fails: a live query on \<open>users\<close> has finished its first fetch; one change
  event starts a refetch, and two more events arriving while it is suspended start two more
  builder calls at once: three refetches of the same query are in flight together.
\<close>

theorem change_events_start_concurrent_refetches:
  "suspended (onTablesChanged ''Users'' (onTablesChanged ''users'' (onTablesChanged ''users''
     (refetch_resume 0 (Resolved (JArr []))
        (logQuery_collect [''users''] (createLiveQuery new_client))))))
     = [(1, False), (1, False), (1, False)]"
  by code_simp

section \<open>Properties of prepared statements\<close>

lemma finalize_count_stmt_call:
  "finalize_count (stmt_call c st) = finalize_count st + (if is_finalize c then 1 else 0)"
  by (simp add: finalize_count_def stmt_call_def)

lemma finalize_count_pq_logQuery: "finalize_count (pq_logQuery pq ps st) = finalize_count st"
  by (simp add: finalize_count_def pq_logQuery_def)

lemma execution_targets_append:
  "execution_targets (cs @ ds) = execution_targets cs @ execution_targets ds"
  by (induction cs rule: execution_targets.induct) simp_all

lemma calls_stmt_call: "calls (stmt_call c st) = calls st @ [c]"
  by (simp add: stmt_call_def)

lemma calls_pq_logQuery: "calls (pq_logQuery pq ps st) = calls st"
  by (simp add: pq_logQuery_def)

text \<open>
  C7 (amended). A one-time statement is finalized once at the end of an execution, in each of
  the modes run, all, get and values, when the engine's execution call returns. When that
  call throws (or when \<open>prepare\<close> rejected), the error reaches the caller unchanged and
  \<open>finalize\<close> is not called: the modes have no \<open>finally\<close>. An execution never finalizes a
  long-lived statement; the cleanup callback of the registry calls \<open>finalize\<close> once each time
  the platform runs it for a statement whose \<open>prepare\<close> fulfilled.
\<close>

theorem one_time_statement_finalized_after_successful_execution:
  "finalize_count (snd (pq_execute m pq ps outcome st)) =
     finalize_count st +
       (case outcome of
          Inl e \<Rightarrow> 0
        | Inr v \<Rightarrow> if oneTime pq \<and> prepare_result pq = None then 1 else 0)
   \<and> (if oneTime pq \<and> prepare_result pq = None
        then last (calls (snd (pq_execute m pq ps (Inr v) st))) = StmtFinalize (pq_tx pq)
        else True)
   \<and> fst (pq_execute m pq ps (Inl e) st) =
       Inl (case prepare_result pq of Some e' \<Rightarrow> e' | None \<Rightarrow> e)
   \<and> finalize_count (registry_cleanup h st) =
       finalize_count st + (if held_prepare h = None then 1 else 0)"
proof -
  have d: "oneTime pq \<and> prepare_result pq = None \<Longrightarrow>
      last (calls (snd (pq_execute m pq ps (Inr v) st))) = StmtFinalize (pq_tx pq)"
    by (cases m)
       (simp_all add: pq_execute_def pq_run_def pq_all_def pq_get_def pq_values_def Let_def
          calls_stmt_call)
  have a: "finalize_count (snd (pq_execute m pq ps outcome st)) =
     finalize_count st +
       (case outcome of
          Inl e \<Rightarrow> 0
        | Inr v \<Rightarrow> if oneTime pq \<and> prepare_result pq = None then 1 else 0)"
    by (cases m; cases outcome)
       (simp_all add: pq_execute_def pq_run_def pq_all_def pq_get_def pq_values_def Let_def
          finalize_count_stmt_call finalize_count_pq_logQuery is_finalize_def
          split: option.splits)
  have b: "fst (pq_execute m pq ps (Inl e) st) =
       Inl (case prepare_result pq of Some e' \<Rightarrow> e' | None \<Rightarrow> e)"
    by (cases m)
       (simp_all add: pq_execute_def pq_run_def pq_all_def pq_get_def pq_values_def Let_def
          split: option.splits)
  have c: "finalize_count (registry_cleanup h st) =
       finalize_count st + (if held_prepare h = None then 1 else 0)"
    by (simp add: registry_cleanup_def finalize_count_def is_finalize_def split: option.splits)
  from a b c d show ?thesis by simp
qed

text \<open>
  C7 as stated fails: a one-time \<open>INSERT\<close> whose execution the engine rejects is never
  finalized.
\<close>

theorem one_time_statement_leaks_when_engine_throws:
  "finalize_count (snd (pq_run (fst (prepareOneTimeQuery ''insert into users values (1)'' None
         \<lparr>session_tx = None, registry = []\<rparr>)) []
       (Inl (ErrorObj ''UNIQUE constraint failed'')) \<lparr>calls = [], logged = []\<rparr>)) = 0"
  by (simp add: prepareOneTimeQuery_def new_prepared_query_def pq_run_def Let_def
      pq_logQuery_def stmt_call_def finalize_count_def is_finalize_def)

text \<open>
  C8. Which handle the engine executes on: \<open>run\<close>, \<open>all\<close> and \<open>get\<close> pass the bound
  transaction context \<open>this.tx\<close>; \<open>values\<close> passes \<open>null\<close>, whatever was bound.
\<close>

lemma execution_dispatch_target:
  "execution_targets (calls (snd (pq_execute m pq ps outcome st))) =
     execution_targets (calls st) @
       (if prepare_result pq = None then [if m = Values then None else pq_tx pq] else [])"
  by (cases m; cases outcome)
     (simp_all add: pq_execute_def pq_run_def pq_all_def pq_get_def pq_values_def Let_def
        calls_stmt_call calls_pq_logQuery execution_targets_append
        split: option.splits)

text \<open>
  C8 fails in the mode \<open>values\<close>: a statement prepared in a session bound to transaction 1
  executes with \<open>null\<close>, on the raw engine handle, where \<open>all\<close> executes with the
  transaction.
\<close>

theorem values_ignores_bound_transaction:
  "execution_targets (calls (snd (pq_values
       (fst (prepareOneTimeQuery ''select id from users'' None \<lparr>session_tx = Some 1, registry = []\<rparr>))
       [] (Inr (JArr [])) \<lparr>calls = [], logged = []\<rparr>))) = [None]
  \<and> execution_targets (calls (snd (pq_all
       (fst (prepareOneTimeQuery ''select id from users'' None \<lparr>session_tx = Some 1, registry = []\<rparr>))
       [] (Inr (JArr [])) \<lparr>calls = [], logged = []\<rparr>))) = [Some 1]"
  by (simp add: prepareOneTimeQuery_def new_prepared_query_def pq_values_def pq_all_def Let_def
      pq_logQuery_def stmt_call_def)

section \<open>Properties of the migrator\<close>

lemma run_statements_ok:
  "run_statements eng stmts db = (None, db1) \<Longrightarrow> db1 = db\<lparr>executed := executed db @ stmts\<rparr>"
proof (induction stmts arbitrary: db)
  case Nil
  then show ?case by simp
next
  case (Cons a stmts)
  from Cons.prems have "run_statements eng stmts (db\<lparr>executed := executed db @ [a]\<rparr>) = (None, db1)"
    by (simp split: option.splits)
  from Cons.IH [OF this] show ?case by simp
qed

lemma insert_entry_ok:
  "insert_entry uuid m db = (None, db2) \<Longrightarrow> migrations_table db = Some rows \<Longrightarrow>
   db2 = db\<lparr>uuid_count := Suc (uuid_count db),
            migrations_table := Some (rows @ [entry_of (uuid (uuid_count db)) m])\<rparr>"
  by (auto simp: insert_entry_def Let_def entry_of_def split: option.splits if_splits)

lemma insert_entry_table:
  "insert_entry uuid m db = (None, db2) \<Longrightarrow> migrations_table db \<noteq> None"
  by (auto simp: insert_entry_def Let_def split: option.splits if_splits)

lemma migrate_loop_ok:
  "migrate_loop eng uuid lst ms db = (None, db') \<Longrightarrow> migrations_table db = Some rows \<Longrightarrow>
   db' = db\<lparr>migrations_table := Some (rows @ new_entries uuid (uuid_count db) (filter (is_pending lst) ms)),
            executed := executed db @ concat (map m_sql (filter (is_pending lst) ms)),
            uuid_count := uuid_count db + length (filter (is_pending lst) ms)\<rparr>"
proof (induction ms arbitrary: db rows)
  case Nil
  then show ?case by (simp add: new_entries.simps)
next
  case (Cons m ms)
  show ?case
  proof (cases "is_pending lst m")
    case False
    then show ?thesis using Cons by simp
  next
    case True
    from Cons.prems(1) True obtain db1 db2 where
      r: "run_statements eng (m_sql m) db = (None, db1)" and
      i: "insert_entry uuid m db1 = (None, db2)" and
      l: "migrate_loop eng uuid lst ms db2 = (None, db')"
      by (auto split: prod.splits option.splits)
    have db1: "db1 = db\<lparr>executed := executed db @ m_sql m\<rparr>" using run_statements_ok [OF r] .
    then have t1: "migrations_table db1 = Some rows" using Cons.prems(2) by simp
    have db2: "db2 = db1\<lparr>uuid_count := Suc (uuid_count db1),
            migrations_table := Some (rows @ [entry_of (uuid (uuid_count db1)) m])\<rparr>"
      using insert_entry_ok [OF i t1] .
    then have t2: "migrations_table db2 = Some (rows @ [entry_of (uuid (uuid_count db1)) m])" by simp
    show ?thesis using Cons.IH [OF l t2] True db1 db2
      by (simp add: new_entries.simps)
  qed
qed

lemma migrate_loop_nothing_pending:
  "\<forall>m \<in> set ms. \<not> is_pending lst m \<Longrightarrow> migrate_loop eng uuid lst ms db = (None, db)"
  by (induction ms) simp_all

lemma most_recent_greatest:
  "most_recent rows = Some r \<Longrightarrow> r \<in> set rows \<and> (\<forall>x \<in> set rows. created_at x \<le> created_at r)"
proof (induction rows arbitrary: r)
  case Nil
  then show ?case by simp
next
  case (Cons a rows)
  show ?case
  proof (cases "most_recent rows")
    case None
    then have "rows = []" by (cases rows) (auto split: option.splits if_splits)
    then show ?thesis using Cons.prems by simp
  next
    case (Some m)
    note ih = Cons.IH [OF Some]
    show ?thesis
    proof (cases "created_at a < created_at m")
      case True
      then have "r = m" using Cons.prems Some by simp
      then show ?thesis using ih True by auto
    next
      case False
      then have "r = a" using Cons.prems Some by simp
      then show ?thesis using ih False by fastforce
    qed
  qed
qed

lemma most_recent_None: "most_recent rows = None \<longleftrightarrow> rows = []"
  by (cases rows) (auto split: option.splits if_splits)

lemma created_at_new_entries:
  "created_at ` set (new_entries uuid n ms) = folderMillis ` set ms"
proof (induction ms arbitrary: n)
  case Nil
  then show ?case by (simp add: new_entries.simps)
next
  case (Cons m ms)
  then show ?case by (simp add: new_entries.simps entry_of_def)
qed

lemma dbMigrations_create: "dbMigrations (migrationTableCreate db) = dbMigrations db"
  by (simp add: dbMigrations_def migrationTableCreate_def split: option.splits)

lemma table_rows_create: "table_rows (migrationTableCreate db) = table_rows db"
  by (simp add: table_rows_def migrationTableCreate_def split: option.splits)

lemma migrate_ok:
  assumes "migrate eng uuid S db = (None, db')" and "S \<noteq> []"
  shows "db' = db\<lparr>migrations_table :=
                Some (table_rows db @ new_entries uuid (uuid_count db) (filter (is_pending (dbMigrations db)) S)),
            executed := executed db @ concat (map m_sql (filter (is_pending (dbMigrations db)) S)),
            uuid_count := uuid_count db + length (filter (is_pending (dbMigrations db)) S)\<rparr>"
proof -
  let ?db1 = "migrationTableCreate db"
  have l: "migrate_loop eng uuid (dbMigrations ?db1) S ?db1 = (None, db')"
    using assms by (simp add: migrate_def Let_def)
  have t: "migrations_table ?db1 = Some (table_rows db)"
    by (simp add: migrationTableCreate_def table_rows_def split: option.splits)
  have "?db1\<lparr>migrations_table := Some x\<rparr> = db\<lparr>migrations_table := Some x\<rparr>" for x
    by (simp add: migrationTableCreate_def split: option.splits)
  moreover have "executed ?db1 = executed db" "uuid_count ?db1 = uuid_count db"
    by (simp_all add: migrationTableCreate_def split: option.splits)
  ultimately show ?thesis
    using migrate_loop_ok [OF l t] by (simp add: dbMigrations_create)
qed

lemma second_run_nothing_pending:
  assumes "migrate eng uuid S db = (None, db')" and "S \<noteq> []" and "m \<in> set S"
  shows "\<not> is_pending (dbMigrations db') m"
proof -
  let ?P = "filter (is_pending (dbMigrations db)) S"
  let ?rows' = "table_rows db @ new_entries uuid (uuid_count db) ?P"
  have t': "migrations_table db' = Some ?rows'"
    using migrate_ok [OF assms(1,2)] by simp
  have ne: "?rows' \<noteq> []"
  proof (cases "dbMigrations db")
    case None
    then have "?P = S" by (simp add: is_pending_def)
    then show ?thesis using assms(2) by (cases S) (simp_all add: new_entries.simps)
  next
    case (Some r)
    then show ?thesis
      by (auto simp: dbMigrations_def table_rows_def most_recent_None split: option.splits)
  qed
  then obtain r' where r': "most_recent ?rows' = Some r'"
    using most_recent_None [of ?rows'] by (cases "most_recent ?rows'") auto
  have great: "\<forall>x \<in> set ?rows'. created_at x \<le> created_at r'"
    using most_recent_greatest [OF r'] by blast
  have "folderMillis m \<le> created_at r'"
  proof (cases "is_pending (dbMigrations db) m")
    case True
    then have "folderMillis m \<in> created_at ` set (new_entries uuid (uuid_count db) ?P)"
      using assms(3) by (simp add: created_at_new_entries)
    then show ?thesis using great by auto
  next
    case False
    then obtain r where r: "dbMigrations db = Some r" "\<not> created_at r < folderMillis m"
      by (auto simp: is_pending_def split: option.splits)
    then have "r \<in> set (table_rows db)"
      using most_recent_greatest [of "table_rows db" r]
      by (auto simp: dbMigrations_def table_rows_def split: option.splits)
    then have "created_at r \<le> created_at r'" using great by simp
    then show ?thesis using r(2) by simp
  qed
  then show ?thesis using t' r' by (simp add: is_pending_def dbMigrations_def)
qed

text \<open>
  C9. Let a call \<open>migrate(db, {migrations: S})\<close> return normally (a call that throws ends
  the program's sequence before the second call is reached). Then a second call with the
  same \<open>S\<close> executes nothing and inserts nothing, whatever the engine and the UUID source do
  then: it leaves the database, bookkeeping table included, as the first call left it. The
  first call applied exactly the migrations of \<open>S\<close> whose \<open>folderMillis\<close> is strictly greater
  than the \<open>created_at\<close> of the most recent stored row (all of them when there is no row), in
  the order of \<open>S\<close>: it executed their statements and appended one row
  \<open>(id, hash, folderMillis)\<close> for each.
\<close>

theorem migrate_twice:
  assumes "fst (migrate eng uuid S db) = None"
  shows "migrate eng2 uuid2 S (snd (migrate eng uuid S db)) = (None, snd (migrate eng uuid S db))
    \<and> table_rows (snd (migrate eng uuid S db)) =
        table_rows db @ new_entries uuid (uuid_count db) (filter (is_pending (dbMigrations db)) S)
    \<and> executed (snd (migrate eng uuid S db)) =
        executed db @ concat (map m_sql (filter (is_pending (dbMigrations db)) S))"
proof (cases "S = []")
  case True
  then show ?thesis by (simp add: migrate_def new_entries.simps)
next
  case False
  obtain db' where m: "migrate eng uuid S db = (None, db')"
    using assms by (cases "migrate eng uuid S db") auto
  have np: "\<forall>m \<in> set S. \<not> is_pending (dbMigrations db') m"
    using second_run_nothing_pending [OF m False] by blast
  have t': "migrations_table db' \<noteq> None" using migrate_ok [OF m False] by simp
  then have c: "migrationTableCreate db' = db'"
    by (auto simp: migrationTableCreate_def split: option.splits)
  have "migrate eng2 uuid2 S db' = (None, db')"
    using False np by (simp add: migrate_def Let_def c migrate_loop_nothing_pending)
  then show ?thesis using m migrate_ok [OF m False] by (simp add: table_rows_def)
qed

theorem migrate_twice_witness:
  "fst (migrate (\<lambda>history stmt. None) (\<lambda>k. ''uuid-'' @ nat_digits k)
      [\<lparr>m_sql = [''CREATE TABLE customers'', ''CREATE TABLE orders''], folderMillis = 1700000000000, m_hash = ''hash1''\<rparr>,
       \<lparr>m_sql = [''ALTER TABLE orders ADD COLUMN quantity''], folderMillis = 1700000000001, m_hash = ''hash2''\<rparr>]
      \<lparr>migrations_table = None, executed = [], uuid_count = 0\<rparr>) = None
   \<and> migrate (\<lambda>history stmt. Some (ErrorObj ''table exists'')) (\<lambda>k. ''other'')
      [\<lparr>m_sql = [''CREATE TABLE customers'', ''CREATE TABLE orders''], folderMillis = 1700000000000, m_hash = ''hash1''\<rparr>,
       \<lparr>m_sql = [''ALTER TABLE orders ADD COLUMN quantity''], folderMillis = 1700000000001, m_hash = ''hash2''\<rparr>]
      (snd (migrate (\<lambda>history stmt. None) (\<lambda>k. ''uuid-'' @ nat_digits k)
        [\<lparr>m_sql = [''CREATE TABLE customers'', ''CREATE TABLE orders''], folderMillis = 1700000000000, m_hash = ''hash1''\<rparr>,
         \<lparr>m_sql = [''ALTER TABLE orders ADD COLUMN quantity''], folderMillis = 1700000000001, m_hash = ''hash2''\<rparr>]
        \<lparr>migrations_table = None, executed = [], uuid_count = 0\<rparr>))
     = (None,
        \<lparr>migrations_table = Some
           [\<lparr>entry_id = ''uuid-0'', entry_hash = ''hash1'', created_at = 1700000000000\<rparr>,
            \<lparr>entry_id = ''uuid-1'', entry_hash = ''hash2'', created_at = 1700000000001\<rparr>],
         executed = [''CREATE TABLE customers'', ''CREATE TABLE orders'', ''ALTER TABLE orders ADD COLUMN quantity''],
         uuid_count = 2\<rparr>)"
proof -
  let ?S = "[\<lparr>m_sql = [''CREATE TABLE customers'', ''CREATE TABLE orders''], folderMillis = 1700000000000, m_hash = ''hash1''\<rparr>,
       \<lparr>m_sql = [''ALTER TABLE orders ADD COLUMN quantity''], folderMillis = 1700000000001, m_hash = ''hash2''\<rparr>]"
  let ?db = "\<lparr>migrations_table = None, executed = [], uuid_count = 0\<rparr>"
  have first: "migrate (\<lambda>history stmt. None) (\<lambda>k. ''uuid-'' @ nat_digits k) ?S ?db
     = (None,
        \<lparr>migrations_table = Some
           [\<lparr>entry_id = ''uuid-0'', entry_hash = ''hash1'', created_at = 1700000000000\<rparr>,
            \<lparr>entry_id = ''uuid-1'', entry_hash = ''hash2'', created_at = 1700000000001\<rparr>],
         executed = [''CREATE TABLE customers'', ''CREATE TABLE orders'', ''ALTER TABLE orders ADD COLUMN quantity''],
         uuid_count = 2\<rparr>)"
    by code_simp
  then have ok: "fst (migrate (\<lambda>history stmt. None) (\<lambda>k. ''uuid-'' @ nat_digits k) ?S ?db) = None"
    by simp
  show ?thesis
    using migrate_twice [OF ok, of "\<lambda>history stmt. Some (ErrorObj ''table exists'')" "\<lambda>k. ''other''"] ok
    by (simp only: first snd_conv fst_conv simp_thms)
qed

section \<open>Properties of the JSON text functions\<close>

subsection \<open>Digits\<close>

lemma char_eq_nat: "(c = d) = ((of_char c :: nat) = of_char d)"
  by simp

lemma of_char_digit_char: "d < 10 \<Longrightarrow> (of_char (digit_char d) :: nat) = 48 + d"
  by (simp add: digit_char_def)

lemma is_digit_digit_char: "d < 10 \<Longrightarrow> is_digit (digit_char d)"
  by (simp add: is_digit_def of_char_digit_char)

lemma digit_val_digit_char: "d < 10 \<Longrightarrow> digit_val (digit_char d) = d"
  by (simp add: digit_val_def of_char_digit_char)

lemma nat_digits_all: "list_all is_digit (nat_digits n)"
proof (induction n rule: nat_digits.induct)
  case (1 n)
  then show ?case
    by (subst nat_digits.simps) (auto simp: is_digit_digit_char)
qed

lemma nat_digits_nonempty: "nat_digits n \<noteq> []"
  by (subst nat_digits.simps) simp

lemma digits_value_snoc: "digits_value (ds @ [c]) = 10 * digits_value ds + digit_val c"
  by (simp add: digits_value_def)

lemma digits_value_nat_digits: "digits_value (nat_digits n) = n"
proof (induction n rule: nat_digits.induct)
  case (1 n)
  show ?case
  proof (cases "n < 10")
    case True
    then show ?thesis
      by (subst nat_digits.simps) (simp add: digits_value_def digit_val_digit_char)
  next
    case False
    then show ?thesis using 1
      by (subst nat_digits.simps) (simp add: digits_value_snoc digit_val_digit_char)
  qed
qed

lemma hd_nat_digits: "hd (nat_digits n) = digit_char 0 \<longleftrightarrow> n = 0"
proof (induction n rule: nat_digits.induct)
  case (1 n)
  show ?case
  proof (cases "n < 10")
    case True
    then have "(digit_char n = digit_char 0) = (n = 0)"
      by (simp add: char_eq_nat of_char_digit_char del: of_char_eq_iff)
    with True show ?thesis by (subst nat_digits.simps) simp
  next
    case False
    then have "n div 10 \<noteq> 0" by simp
    with False 1 show ?thesis
      by (subst nat_digits.simps) (simp add: nat_digits_nonempty)
  qed
qed

lemma nat_digits_0: "nat_digits 0 = ''0''"
  by code_simp

lemma digit_char_0: "digit_char 0 = CHR ''0''"
  by code_simp

lemma is_digit_not_special:
  "is_digit c \<Longrightarrow> c \<noteq> CHR ''-'' \<and> c \<noteq> CHR ''.'' \<and> c \<noteq> CHR ''e'' \<and> c \<noteq> CHR ''E'' \<and> c \<noteq> CHR ''[''
     \<and> c \<noteq> CHR ''{'' \<and> c \<noteq> CHR 0x22 \<and> c \<noteq> CHR ''n'' \<and> c \<noteq> CHR ''t'' \<and> c \<noteq> CHR ''f''
     \<and> c \<noteq> CHR '','' \<and> c \<noteq> CHR '']'' \<and> c \<noteq> CHR ''}'' \<and> c \<noteq> CHR ''+'' \<and> \<not> is_ws c"
  by (auto simp: is_digit_def is_ws_def Let_def)

lemma delimited_not_digit:
  "delimited rest \<Longrightarrow> rest = [] \<or> (\<not> is_digit (hd rest) \<and> hd rest \<noteq> CHR ''.'' \<and> hd rest \<noteq> CHR ''e'' \<and> hd rest \<noteq> CHR ''E'')"
  by (auto simp: delimited_def is_digit_def Let_def)

lemma takeWhile_digits:
  "list_all is_digit ds \<Longrightarrow> rest = [] \<or> \<not> is_digit (hd rest) \<Longrightarrow> takeWhile is_digit (ds @ rest) = ds"
  by (cases rest) (auto simp: list_all_iff takeWhile_append2)

text \<open>The digits of a number: value, length, first and last digit.\<close>

lemma digits_value_append:
  "digits_value (a @ b) = digits_value a * 10 ^ length b + digits_value b"
proof (induction b rule: rev_induct)
  case Nil
  then show ?case by (simp add: digits_value_def)
next
  case (snoc c b)
  have "digits_value (a @ b @ [c]) = 10 * digits_value (a @ b) + digit_val c"
    using digits_value_snoc [of "a @ b" c] by simp
  then show ?case using snoc digits_value_snoc [of b c] by (simp add: algebra_simps)
qed

lemma digits_value_zeros: "digits_value (replicate z (CHR ''0'')) = 0"
  by (induction z) (simp_all add: digits_value_def digit_val_def)

lemma digits_value_trailing_zeros:
  "digits_value (ds @ replicate z (CHR ''0'')) = digits_value ds * 10 ^ z"
  by (simp add: digits_value_append digits_value_zeros)

lemma digits_value_leading_zeros:
  "digits_value (replicate z (CHR ''0'') @ ds) = digits_value ds"
  by (simp add: digits_value_append digits_value_zeros)

lemma takeWhile_eq_replicate:
  "takeWhile (\<lambda>x. x = c) xs = replicate (length (takeWhile (\<lambda>x. x = c) xs)) c"
  by (induction xs) simp_all

lemma significant_digits:
  "rev (dropWhile (\<lambda>x. x = c) (rev ds))
     @ replicate (length ds - length (rev (dropWhile (\<lambda>x. x = c) (rev ds)))) c = ds"
proof -
  let ?t = "takeWhile (\<lambda>x. x = c) (rev ds)" and ?d = "dropWhile (\<lambda>x. x = c) (rev ds)"
  have split: "rev ds = ?t @ ?d" by simp
  then have "ds = rev ?d @ rev ?t" by (metis rev_append rev_rev_ident)
  moreover have "rev ?t = replicate (length ?t) c"
    using takeWhile_eq_replicate [of c "rev ds"] by (metis rev_replicate)
  moreover have "length ds = length ?t + length ?d"
    using split by (metis length_append length_rev)
  ultimately show ?thesis by simp
qed

lemma significant_digits_length:
  "length (rev (dropWhile (\<lambda>x. x = c) (rev ds))) \<le> length ds"
  by (simp add: length_dropWhile_le [of _ "rev ds", simplified])

lemma significant_digits_subset:
  "list_all P ds \<Longrightarrow> list_all P (rev (dropWhile Q (rev ds)))"
  by (auto simp: list_all_iff dest: set_dropWhileD)

lemma significant_digits_hd:
  assumes "ds \<noteq> []" "hd ds \<noteq> c"
  shows "rev (dropWhile (\<lambda>x. x = c) (rev ds)) \<noteq> []
         \<and> hd (rev (dropWhile (\<lambda>x. x = c) (rev ds))) = hd ds"
proof -
  obtain d ds' where ds: "ds = d # ds'" using assms by (cases ds) auto
  have "dropWhile (\<lambda>x. x = c) (rev ds' @ [d]) = dropWhile (\<lambda>x. x = c) (rev ds') @ [d]"
    using assms ds by (simp add: dropWhile_append3)
  then show ?thesis using ds by simp
qed

lemma last_nat_digits: "last (nat_digits n) = digit_char (n mod 10)"
  by (subst nat_digits.simps) (simp add: nat_digits_nonempty)

lemma digit_char_eq_0: "d < 10 \<Longrightarrow> (digit_char d = CHR ''0'') = (d = 0)"
  using digit_char_0 by (simp add: char_eq_nat of_char_digit_char del: of_char_eq_iff)

lemma significant_digits_id:
  assumes "n mod 10 \<noteq> 0"
  shows "rev (dropWhile (\<lambda>x. x = CHR ''0'') (rev (nat_digits n))) = nat_digits n"
proof -
  have "last (nat_digits n) \<noteq> CHR ''0''"
    using assms by (simp add: last_nat_digits digit_char_eq_0)
  then have "hd (rev (nat_digits n)) \<noteq> CHR ''0''"
    by (simp add: hd_rev nat_digits_nonempty)
  then have "dropWhile (\<lambda>x. x = CHR ''0'') (rev (nat_digits n)) = rev (nat_digits n)"
    using nat_digits_nonempty [of n] by (cases "rev (nat_digits n)") auto
  then show ?thesis by simp
qed

lemma nat_digits_hd_nonzero: "n \<noteq> 0 \<Longrightarrow> hd (nat_digits n) \<noteq> CHR ''0''"
  using hd_nat_digits [of n] by (simp add: digit_char_0)

lemma nat_digits_hd_digit: "is_digit (hd (nat_digits n))"
  using nat_digits_all [of n] nat_digits_nonempty [of n] by (cases "nat_digits n") auto

subsection \<open>Number literals\<close>

text \<open>The parts of a number literal.\<close>

lemma mk_number_int: "0 \<le> e \<Longrightarrow> mk_number m e = JNum (m * 10 ^ nat e)"
  by (subst mk_number.simps) simp

lemma mk_number_dec: "e < 0 \<Longrightarrow> m mod 10 \<noteq> 0 \<Longrightarrow> mk_number m e = JDec m (nat (- e))"
  by (subst mk_number.simps) simp

lemma int_part_digits:
  assumes "list_all is_digit ip" "ip \<noteq> []" "hd ip = CHR ''0'' \<longrightarrow> ip = ''0''"
    and "rest = [] \<or> \<not> is_digit (hd rest)"
  shows "int_part (ip @ rest) = ip"
proof (cases "hd ip = CHR ''0''")
  case True
  then show ?thesis using assms by (simp add: int_part_def)
next
  case False
  then show ?thesis using assms takeWhile_digits [of ip rest]
    by (cases ip) (auto simp: int_part_def)
qed

lemma parse_fraction_none:
  "rest = [] \<or> hd rest \<noteq> CHR ''.'' \<Longrightarrow> parse_fraction rest = Some ([], rest)"
  by (auto simp: parse_fraction_def)

lemma parse_fraction_some:
  assumes "list_all is_digit fr" "fr \<noteq> []" "rest = [] \<or> \<not> is_digit (hd rest)"
  shows "parse_fraction (CHR ''.'' # fr @ rest) = Some (fr, rest)"
  using assms takeWhile_digits [of fr rest] by (simp add: parse_fraction_def Let_def)

lemma parse_exponent_none:
  "rest = [] \<or> (hd rest \<noteq> CHR ''e'' \<and> hd rest \<noteq> CHR ''E'') \<Longrightarrow> parse_exponent rest = Some (0, rest)"
  by (auto simp: parse_exponent_def)

lemma parse_exponent_signed:
  assumes "rest = [] \<or> \<not> is_digit (hd rest)"
  shows "parse_exponent (CHR ''e'' # (if 0 \<le> x then CHR ''+'' else CHR ''-'') # nat_digits (nat \<bar>x\<bar>) @ rest)
         = Some (x, rest)"
proof -
  have tw: "takeWhile is_digit (nat_digits n @ rest) = nat_digits n" for n
    using assms by (intro takeWhile_digits nat_digits_all)
  show ?thesis
    by (cases "0 \<le> x")
       (simp_all add: parse_exponent_def Let_def tw nat_digits_nonempty digits_value_nat_digits)
qed

lemma parse_unsigned_parts:
  assumes "int_part s = ip" "ip \<noteq> []" "parse_fraction (drop (length ip) s) = Some (fr, s2)"
    and "parse_exponent s2 = Some (e, rest)"
  shows "parse_unsigned s = Some ((digits_value (ip @ fr), e - int (length fr)), rest)"
  using assms by (simp add: parse_unsigned_def Let_def)

lemma delimited_plain:
  "delimited rest \<Longrightarrow> rest = [] \<or> \<not> is_digit (hd rest)"
  "delimited rest \<Longrightarrow> rest = [] \<or> hd rest \<noteq> CHR ''.''"
  "delimited rest \<Longrightarrow> rest = [] \<or> (hd rest \<noteq> CHR ''e'' \<and> hd rest \<noteq> CHR ''E'')"
  using delimited_not_digit [of rest] by auto

text \<open>The four forms that \<open>number_text\<close> writes.\<close>

lemma parse_plain_form:
  assumes "list_all is_digit ds" "ds \<noteq> []" "hd ds = CHR ''0'' \<longrightarrow> ds = ''0''" "delimited rest"
  shows "parse_unsigned (ds @ rest) = Some ((digits_value ds, 0), rest)"
proof -
  have "int_part (ds @ rest) = ds"
    using assms delimited_plain(1) by (intro int_part_digits) auto
  moreover have "parse_fraction rest = Some ([], rest)"
    using assms delimited_plain(2) by (intro parse_fraction_none) auto
  moreover have "parse_exponent rest = Some (0, rest)"
    using assms delimited_plain(3) by (intro parse_exponent_none) auto
  ultimately show ?thesis
    using parse_unsigned_parts [of "ds @ rest" ds "[]" rest 0 rest] assms(2) by simp
qed

lemma parse_point_form:
  assumes "list_all is_digit ip" "ip \<noteq> []" "hd ip = CHR ''0'' \<longrightarrow> ip = ''0''"
    and "list_all is_digit fr" "fr \<noteq> []" "delimited rest"
  shows "parse_unsigned (ip @ CHR ''.'' # fr @ rest)
         = Some ((digits_value (ip @ fr), - int (length fr)), rest)"
proof -
  have nd: "\<not> is_digit (CHR ''.'')" by (simp add: is_digit_def)
  have "int_part (ip @ CHR ''.'' # fr @ rest) = ip"
    using assms nd by (intro int_part_digits) auto
  moreover have "parse_fraction (CHR ''.'' # fr @ rest) = Some (fr, rest)"
    using assms delimited_plain(1) by (intro parse_fraction_some) auto
  moreover have "parse_exponent rest = Some (0, rest)"
    using assms delimited_plain(3) by (intro parse_exponent_none) auto
  ultimately show ?thesis
    using parse_unsigned_parts [of "ip @ CHR ''.'' # fr @ rest" ip fr rest 0 rest] assms(2) by simp
qed

lemma parse_exponent_form:
  assumes "list_all is_digit sg" "sg \<noteq> []" "delimited rest"
  shows "parse_unsigned ((if int (length sg) = 1 then sg else hd sg # CHR ''.'' # tl sg)
           @ CHR ''e'' # (if 0 \<le> x then CHR ''+'' else CHR ''-'') # nat_digits (nat \<bar>x\<bar>) @ rest)
         = Some ((digits_value sg, x - (int (length sg) - 1)), rest)"
proof -
  obtain d ds where sg: "sg = d # ds" using assms(2) by (cases sg) auto
  let ?E = "CHR ''e'' # (if 0 \<le> x then CHR ''+'' else CHR ''-'') # nat_digits (nat \<bar>x\<bar>) @ rest"
  have ne: "\<not> is_digit (CHR ''e'')" "\<not> is_digit (CHR ''.'')" by (simp_all add: is_digit_def)
  have d: "is_digit d" and ds: "list_all is_digit ds" using assms(1) sg by simp_all
  have ex: "parse_exponent ?E = Some (x, rest)"
    using assms delimited_plain(1) by (intro parse_exponent_signed) auto
  show ?thesis
  proof (cases "ds = []")
    case True
    have "int_part ([d] @ ?E) = [d]"
      using d ne by (intro int_part_digits) auto
    moreover have "parse_fraction ?E = Some ([], ?E)"
      by (intro parse_fraction_none) simp
    ultimately show ?thesis
      using parse_unsigned_parts [of "[d] @ ?E" "[d]" "[]" ?E x rest] ex sg True by simp
  next
    case False
    have "int_part ([d] @ CHR ''.'' # ds @ ?E) = [d]"
      using d ne by (intro int_part_digits) auto
    moreover have "parse_fraction (CHR ''.'' # ds @ ?E) = Some (ds, ?E)"
      using ds False ne by (intro parse_fraction_some) auto
    ultimately show ?thesis
      using parse_unsigned_parts [of "[d] @ CHR ''.'' # ds @ ?E" "[d]" ds ?E x rest] ex sg False
      by simp
  qed
qed

lemma parse_number_text:
  assumes sg: "list_all is_digit sg" "sg \<noteq> []" "hd sg \<noteq> CHR ''0''" and rest: "delimited rest"
  shows "\<exists>M E. parse_unsigned (number_text sg n @ rest) = Some ((M, E), rest)
           \<and> (\<forall>\<sigma>. mk_number (\<sigma> * int M) E = mk_number (\<sigma> * int (digits_value sg)) (n - int (length sg)))"
proof -
  let ?K = "int (length sg)"
  consider (plain) "?K \<le> n" "n \<le> 21"
    | (point) "\<not> (?K \<le> n \<and> n \<le> 21)" "0 < n" "n \<le> 21"
    | (zero) "\<not> (?K \<le> n \<and> n \<le> 21)" "\<not> (0 < n \<and> n \<le> 21)" "- 6 < n" "n \<le> 0"
    | (expo) "\<not> (?K \<le> n \<and> n \<le> 21)" "\<not> (0 < n \<and> n \<le> 21)" "\<not> (- 6 < n \<and> n \<le> 0)"
    by linarith
  then show ?thesis
  proof cases
    case plain
    let ?z = "nat (n - ?K)"
    let ?ds = "sg @ replicate ?z (CHR ''0'')"
    have layout: "number_text sg n = ?ds" using plain by (simp add: number_text_def)
    have z: "is_digit (CHR ''0'')" by (simp add: is_digit_def)
    have "list_all is_digit ?ds" using sg z by (auto simp: list_all_iff)
    moreover have "?ds \<noteq> []" "hd ?ds = CHR ''0'' \<longrightarrow> ?ds = ''0''" using sg by simp_all
    ultimately have p: "parse_unsigned (?ds @ rest) = Some ((digits_value ?ds, 0), rest)"
      using rest by (intro parse_plain_form)
    have "mk_number (\<sigma> * int (digits_value ?ds)) 0 = mk_number (\<sigma> * int (digits_value sg)) (n - ?K)" for \<sigma>
      using plain by (simp add: mk_number_int digits_value_trailing_zeros)
    then show ?thesis using p layout by simp
  next
    case point
    then have lt: "nat n < length sg" by linarith
    let ?ip = "take (nat n) sg" and ?fr = "drop (nat n) sg"
    have layout: "number_text sg n = ?ip @ CHR ''.'' # ?fr" using point by (simp add: number_text_def)
    have ip: "list_all is_digit ?ip" "?ip \<noteq> []" "hd ?ip = CHR ''0'' \<longrightarrow> ?ip = ''0''"
      using sg point by (auto simp: list_all_iff dest: in_set_takeD)
    have fr: "list_all is_digit ?fr" "?fr \<noteq> []"
      using sg lt by (auto simp: list_all_iff dest: in_set_dropD)
    have p: "parse_unsigned (?ip @ CHR ''.'' # ?fr @ rest)
         = Some ((digits_value (?ip @ ?fr), - int (length ?fr)), rest)"
      using ip fr rest by (intro parse_point_form)
    have "- int (length ?fr) = n - ?K" using lt point by simp
    then show ?thesis using p layout point(2) by simp
  next
    case zero
    let ?z = "nat (- n)"
    let ?fr = "replicate ?z (CHR ''0'') @ sg"
    have layout: "number_text sg n = ''0'' @ CHR ''.'' # ?fr" using zero by (simp add: number_text_def)
    have z: "is_digit (CHR ''0'')" by (simp add: is_digit_def)
    have fr: "list_all is_digit ?fr" "?fr \<noteq> []" using sg z by (auto simp: list_all_iff)
    have p: "parse_unsigned (''0'' @ CHR ''.'' # ?fr @ rest)
         = Some ((digits_value (''0'' @ ?fr), - int (length ?fr)), rest)"
      using fr rest z by (intro parse_point_form) simp_all
    have "''0'' @ ?fr = replicate (Suc ?z) (CHR ''0'') @ sg" by simp
    then have dv: "digits_value (''0'' @ ?fr) = digits_value sg"
      using digits_value_leading_zeros [of "Suc ?z" sg] by simp
    have "- int (length ?fr) = n - ?K" using zero by simp
    then show ?thesis using p layout dv zero(4) by simp
  next
    case expo
    have layout: "number_text sg n = (if ?K = 1 then sg else hd sg # CHR ''.'' # tl sg)
        @ CHR ''e'' # (if 0 \<le> n - 1 then CHR ''+'' else CHR ''-'') # nat_digits (nat \<bar>n - 1\<bar>)"
      unfolding number_text_def Let_def by (simp only: expo if_False)
    have p: "parse_unsigned ((if ?K = 1 then sg else hd sg # CHR ''.'' # tl sg)
           @ CHR ''e'' # (if 0 \<le> n - 1 then CHR ''+'' else CHR ''-'') # nat_digits (nat \<bar>n - 1\<bar>) @ rest)
         = Some ((digits_value sg, (n - 1) - (?K - 1)), rest)"
      using sg rest by (intro parse_exponent_form)
    have "(n - 1) - (?K - 1) = n - ?K" by simp
    then show ?thesis using p layout by simp
  qed
qed

lemma number_text_head:
  assumes "list_all is_digit sg" "sg \<noteq> []"
  shows "number_text sg n \<noteq> [] \<and> is_digit (hd (number_text sg n))"
proof -
  have z: "is_digit (CHR ''0'')" by (simp add: is_digit_def)
  have h: "is_digit (hd sg)" using assms by (cases sg) auto
  have "0 < n \<Longrightarrow> hd (take (nat n) sg) = hd sg" using assms by (cases sg) (auto simp: take_Cons')
  then show ?thesis using assms z h
    by (auto simp: number_text_def Let_def hd_append)
qed

lemma parse_number_number_text:
  assumes sg: "list_all is_digit sg" "sg \<noteq> []" "hd sg \<noteq> CHR ''0''" and rest: "delimited rest"
  shows "parse_number (number_text sg n @ rest)
           = Some (mk_number (int (digits_value sg)) (n - int (length sg)), rest)"
    and "parse_number (CHR ''-'' # number_text sg n @ rest)
           = Some (mk_number (- int (digits_value sg)) (n - int (length sg)), rest)"
proof -
  obtain M E where p: "parse_unsigned (number_text sg n @ rest) = Some ((M, E), rest)"
    and v: "\<And>\<sigma>. mk_number (\<sigma> * int M) E = mk_number (\<sigma> * int (digits_value sg)) (n - int (length sg))"
    using parse_number_text [OF sg rest, of n] by blast
  have hd: "number_text sg n \<noteq> []" "hd (number_text sg n) \<noteq> CHR ''-''"
    using number_text_head [OF sg(1,2), of n] is_digit_not_special by blast+
  show "parse_number (number_text sg n @ rest)
           = Some (mk_number (int (digits_value sg)) (n - int (length sg)), rest)"
    using p v [of 1] hd by (simp add: parse_number_def)
  show "parse_number (CHR ''-'' # number_text sg n @ rest)
           = Some (mk_number (- int (digits_value sg)) (n - int (length sg)), rest)"
    using p v [of "- 1"] by (simp add: parse_number_def)
qed

text \<open>Numbers are read back as \<open>Number::toString\<close> writes them.\<close>

lemma parse_number_zero:
  assumes "delimited rest"
  shows "parse_number (''0'' @ rest) = Some (JNum 0, rest)"
proof -
  have z: "is_digit (CHR ''0'')" by (simp add: is_digit_def)
  have "parse_unsigned (''0'' @ rest) = Some ((digits_value ''0'', 0), rest)"
    using assms z by (intro parse_plain_form) simp_all
  then show ?thesis by (simp add: parse_number_def digits_value_def digit_val_def mk_number_int)
qed

lemma decimal_toString_nonzero:
  assumes "m \<noteq> 0" "a = nat \<bar>m\<bar>"
  shows "decimal_toString m k =
         (if m < 0 then [CHR ''-''] else [])
         @ number_text (rev (dropWhile (\<lambda>c. c = CHR ''0'') (rev (nat_digits a))))
             (int (length (nat_digits a)) - int k)"
  using assms by (simp add: decimal_toString_def Let_def)

lemma significant_digits_number:
  assumes "a \<noteq> 0" "sg = rev (dropWhile (\<lambda>c. c = CHR ''0'') (rev (nat_digits a)))"
  shows "list_all is_digit sg" "sg \<noteq> []" "hd sg \<noteq> CHR ''0''"
proof -
  have h: "sg \<noteq> []" "hd sg = hd (nat_digits a)"
    using significant_digits_hd [of "nat_digits a" "CHR ''0''"] nat_digits_nonempty
      nat_digits_hd_nonzero [OF assms(1)] assms(2)
    by blast+
  show "list_all is_digit sg" unfolding assms(2) by (rule significant_digits_subset [OF nat_digits_all])
  show "sg \<noteq> []" by (rule h(1))
  show "hd sg \<noteq> CHR ''0''" using h(2) nat_digits_hd_nonzero [OF assms(1)] by simp
qed

lemma parse_number_decimal:
  assumes m: "m \<noteq> 0" and a: "a = nat \<bar>m\<bar>"
    and sg: "sg = rev (dropWhile (\<lambda>c. c = CHR ''0'') (rev (nat_digits a)))"
    and rest: "delimited rest"
  shows "parse_number (decimal_toString m k @ rest)
         = Some (mk_number (if m < 0 then - int (digits_value sg) else int (digits_value sg))
                   (int (length (nat_digits a)) - int k - int (length sg)),
                 rest)"
proof -
  have pos: "a \<noteq> 0" using m a by simp
  note d = significant_digits_number [OF pos sg]
  have unfold: "decimal_toString m k =
      (if m < 0 then [CHR ''-''] else []) @ number_text sg (int (length (nat_digits a)) - int k)"
    unfolding sg by (rule decimal_toString_nonzero [OF m a])
  show ?thesis
  proof (cases "m < 0")
    case True
    then show ?thesis unfolding unfold
      using parse_number_number_text(2) [OF d rest, of "int (length (nat_digits a)) - int k"] by simp
  next
    case False
    then show ?thesis unfolding unfold
      using parse_number_number_text(1) [OF d rest, of "int (length (nat_digits a)) - int k"] by simp
  qed
qed

lemma parse_number_JNum:
  assumes "delimited rest"
  shows "parse_number (decimal_toString i 0 @ rest) = Some (JNum i, rest)"
proof (cases "i = 0")
  case True
  then show ?thesis using parse_number_zero [OF assms] by (simp add: decimal_toString_def)
next
  case False
  define a where "a = nat \<bar>i\<bar>"
  define ds where "ds = nat_digits a"
  define sg where "sg = rev (dropWhile (\<lambda>c. c = CHR ''0'') (rev ds))"
  define z where "z = length ds - length sg"
  have le: "length sg \<le> length ds" unfolding sg_def by (rule significant_digits_length)
  have "sg @ replicate z (CHR ''0'') = ds"
    unfolding sg_def z_def by (rule significant_digits)
  then have "digits_value (sg @ replicate z (CHR ''0'')) = a"
    by (simp add: ds_def digits_value_nat_digits)
  then have dv: "digits_value sg * 10 ^ z = a"
    by (simp add: digits_value_trailing_zeros)
  have ia: "int a = \<bar>i\<bar>" by (simp add: a_def)
  have "int (digits_value sg * 10 ^ z) = \<bar>i\<bar>" using dv ia by simp
  then have v: "int (digits_value sg) * 10 ^ z = \<bar>i\<bar>" by simp
  have e: "int (length (nat_digits a)) - int 0 - int (length sg) = int z"
    using le by (simp add: z_def ds_def)
  have "mk_number (if i < 0 then - int (digits_value sg) else int (digits_value sg)) (int z) = JNum i"
    using v by (auto simp: mk_number_int)
  then show ?thesis
    using parse_number_decimal [OF False a_def _ assms, of sg 0] e by (simp add: sg_def ds_def)
qed

lemma parse_number_JDec:
  assumes "delimited rest" "0 < k" "m mod 10 \<noteq> 0"
  shows "parse_number (decimal_toString m k @ rest) = Some (JDec m k, rest)"
proof -
  have m: "m \<noteq> 0" using assms(3) by auto
  define a where "a = nat \<bar>m\<bar>"
  define sg where "sg = rev (dropWhile (\<lambda>c. c = CHR ''0'') (rev (nat_digits a)))"
  have ia: "int a = \<bar>m\<bar>" by (simp add: a_def)
  have "\<bar>m\<bar> mod 10 \<noteq> 0" using assms(3) by presburger
  then have "int (a mod 10) \<noteq> 0" using ia by (simp add: zmod_int)
  then have "a mod 10 \<noteq> 0" by simp
  then have sg: "sg = nat_digits a" unfolding sg_def by (rule significant_digits_id)
  have dv: "int (digits_value sg) = \<bar>m\<bar>" using ia by (simp add: sg digits_value_nat_digits)
  have v: "(if m < 0 then - int (digits_value sg) else int (digits_value sg)) = m"
    using dv by auto
  have e: "int (length (nat_digits a)) - int k - int (length sg) = - int k" by (simp add: sg)
  have "mk_number m (- int k) = JDec m k"
    using assms by (simp add: mk_number_dec)
  then show ?thesis using parse_number_decimal [OF m a_def sg_def assms(1), of k]
    unfolding v e by simp
qed

lemma decimal_toString_head:
  "decimal_toString m k \<noteq> []
   \<and> (hd (decimal_toString m k) = CHR ''-'' \<or> is_digit (hd (decimal_toString m k)))"
proof (cases "m = 0")
  case True
  then show ?thesis by (simp add: decimal_toString_def is_digit_def)
next
  case False
  define a where "a = nat \<bar>m\<bar>"
  define sg where "sg = rev (dropWhile (\<lambda>c. c = CHR ''0'') (rev (nat_digits a)))"
  have pos: "a \<noteq> 0" using False by (simp add: a_def)
  note d = significant_digits_number [OF pos sg_def]
  have nt: "number_text sg n \<noteq> [] \<and> is_digit (hd (number_text sg n))" for n
    using d by (intro number_text_head)
  show ?thesis
    unfolding decimal_toString_nonzero [OF False a_def] sg_def [symmetric]
    using nt by (simp add: hd_append)
qed

text \<open>Below \<open>10 ^ 21\<close> an integer is written by its digits.\<close>

lemma nat_digits_length: "n < 10 ^ length (nat_digits n)"
proof (induction n rule: nat_digits.induct)
  case (1 n)
  show ?case
  proof (cases "n < 10")
    case True
    then show ?thesis by (subst nat_digits.simps) simp
  next
    case False
    then have "n div 10 < 10 ^ length (nat_digits (n div 10))" using 1 by simp
    then have "n < 10 * 10 ^ length (nat_digits (n div 10))" by linarith
    then show ?thesis using False by (subst nat_digits.simps) simp
  qed
qed

lemma nat_digits_short:
  assumes "n < 10 ^ d" "0 < d"
  shows "length (nat_digits n) \<le> d"
  using assms
proof (induction n arbitrary: d rule: nat_digits.induct)
  case (1 n)
  show ?case
  proof (cases "n < 10")
    case True
    then show ?thesis using 1(3) by (subst nat_digits.simps) simp
  next
    case False
    then obtain d' where d: "d = Suc d'" using 1(3) by (cases d) auto
    have "0 < d'" using False 1(2) d by (cases d') auto
    moreover have "n div 10 < 10 ^ d'" using 1(2) d by (simp add: less_mult_imp_div_less mult.commute)
    ultimately have "length (nat_digits (n div 10)) \<le> d'" using 1(1) False by blast
    then show ?thesis using False d by (subst nat_digits.simps) simp
  qed
qed

lemma decimal_toString_small:
  assumes "\<bar>i\<bar> < 10 ^ 21"
  shows "decimal_toString i 0 = int_toString i"
proof (cases "i = 0")
  case True
  then show ?thesis by (simp add: decimal_toString_def int_toString_def nat_digits_0)
next
  case False
  define a where "a = nat \<bar>i\<bar>"
  define ds where "ds = nat_digits a"
  define sg where "sg = rev (dropWhile (\<lambda>c. c = CHR ''0'') (rev ds))"
  have "a < 10 ^ 21" using assms by (simp add: a_def nat_less_iff)
  then have len: "length ds \<le> 21" unfolding ds_def by (intro nat_digits_short) simp_all
  have le: "length sg \<le> length ds" unfolding sg_def by (rule significant_digits_length)
  have "number_text sg (int (length ds)) = sg @ replicate (length ds - length sg) (CHR ''0'')"
    using len le by (simp add: number_text_def Let_def nat_diff_distrib')
  also have "\<dots> = ds" unfolding sg_def by (rule significant_digits)
  finally have nt: "number_text sg (int (length ds) - int 0) = ds" by simp
  have its: "int_toString i = (if i < 0 then [CHR ''-''] else []) @ nat_digits a"
    by (simp add: int_toString_def a_def)
  show ?thesis
    unfolding decimal_toString_nonzero [OF False a_def] its
    using nt by (simp add: sg_def ds_def)
qed

subsection \<open>String literals and whole texts\<close>

lemma then_parse_Parsed:
  "then_parse p f = Parsed y \<longleftrightarrow> (\<exists>x. p = Parsed x \<and> f x = Parsed y)"
  by (cases p) auto

lemma of_option_Parsed: "of_option x = Parsed y \<longleftrightarrow> x = Some y"
  by (cases x) (auto simp: of_option_def)

lemma hex_val_hex_digit: "d < 16 \<Longrightarrow> hex_val (hex_digit d) = Some d"
  by (simp add: hex_val_def hex_digit_def Let_def)

lemma hex_val_0: "hex_val (CHR ''0'') = Some 0"
  by code_simp

lemma unescape_simps:
  "unescape (CHR 0x22) = Some (CHR 0x22)" "unescape (CHR 0x5C) = Some (CHR 0x5C)"
  "unescape (CHR ''b'') = Some (CHR 0x08)" "unescape (CHR ''t'') = Some (CHR 0x09)"
  "unescape (CHR ''n'') = Some (CHR 0x0A)" "unescape (CHR ''f'') = Some (CHR 0x0C)"
  "unescape (CHR ''r'') = Some (CHR 0x0D)"
  by (simp_all add: unescape_def)

lemma parse_escaped_char:
  assumes "parse_string_body tail = Parsed (s, rest)"
  shows "parse_string_body (escape_char c @ tail) = Parsed (c # s, rest)"
proof -
  let ?n = "of_char c :: nat"
  consider "?n = 0x22" | "?n = 0x5C" | "?n = 8" | "?n = 9" | "?n = 10" | "?n = 12" | "?n = 13"
    | "?n < 32" "?n \<noteq> 8" "?n \<noteq> 9" "?n \<noteq> 10" "?n \<noteq> 12" "?n \<noteq> 13"
    | "?n \<ge> 32" "?n \<noteq> 0x22" "?n \<noteq> 0x5C"
    by linarith
  then show ?thesis
  proof cases
    case 1
    then have "c = CHR 0x22" by (simp add: char_eq_nat del: of_char_eq_iff)
    then show ?thesis using assms by (simp add: escape_char_def unescape_simps)
  next
    case 2
    then have "c = CHR 0x5C" by (simp add: char_eq_nat del: of_char_eq_iff)
    then show ?thesis using assms by (simp add: escape_char_def unescape_simps)
  next
    case 3
    then have "c = CHR 0x08" by (simp add: char_eq_nat del: of_char_eq_iff)
    then show ?thesis using assms by (simp add: escape_char_def unescape_simps)
  next
    case 4
    then have "c = CHR 0x09" by (simp add: char_eq_nat del: of_char_eq_iff)
    then show ?thesis using assms by (simp add: escape_char_def unescape_simps)
  next
    case 5
    then have "c = CHR 0x0A" by (simp add: char_eq_nat del: of_char_eq_iff)
    then show ?thesis using assms by (simp add: escape_char_def unescape_simps)
  next
    case 6
    then have "c = CHR 0x0C" by (simp add: char_eq_nat del: of_char_eq_iff)
    then show ?thesis using assms by (simp add: escape_char_def unescape_simps)
  next
    case 7
    then have "c = CHR 0x0D" by (simp add: char_eq_nat del: of_char_eq_iff)
    then show ?thesis using assms by (simp add: escape_char_def unescape_simps)
  next
    case 8
    have lt: "?n div 16 < 16" "?n mod 16 < 16" using 8(1) by simp_all
    have rebuilt: "char_of (?n div 16 * 16 + ?n mod 16) = c" by simp
    show ?thesis using assms 8 rebuilt
      by (simp add: escape_char_def Let_def hex_val_hex_digit [OF lt(1)] hex_val_hex_digit [OF lt(2)]
          hex_val_0)
  next
    case 9
    then have "c \<noteq> CHR 0x22" "c \<noteq> CHR 0x5C" by auto
    then show ?thesis using assms 9 by (simp add: escape_char_def Let_def)
  qed
qed

lemma parse_string_body_escaped:
  "parse_string_body (concat (map escape_char s) @ CHR 0x22 # rest) = Parsed (s, rest)"
  by (induction s) (simp_all add: parse_escaped_char)

lemma parse_quoted:
  "QuoteJSONString s @ rest = CHR 0x22 # (concat (map escape_char s) @ CHR 0x22 # rest)"
  by (simp add: QuoteJSONString_def)

lemma json_text_head:
  "json_text j \<noteq> [] \<and> \<not> is_ws (hd (json_text j)) \<and> hd (json_text j) \<noteq> CHR '']''
     \<and> hd (json_text j) \<noteq> CHR ''}''"
proof (cases j)
  case (JNum n)
  then show ?thesis
    using decimal_toString_head [of n 0] is_digit_not_special [of "hd (decimal_toString n 0)"]
    by (auto simp: is_ws_def)
next
  case (JDec m k)
  then show ?thesis
    using decimal_toString_head [of m k] is_digit_not_special [of "hd (decimal_toString m k)"]
    by (auto simp: is_ws_def)
qed (simp_all add: is_ws_def QuoteJSONString_def)

lemma elements_text_head:
  "xs \<noteq> [] \<Longrightarrow> elements_text xs \<noteq> [] \<and> \<not> is_ws (hd (elements_text xs)) \<and> hd (elements_text xs) \<noteq> CHR '']''"
  using json_text_head by (cases xs) auto

lemma members_text_head:
  "kvs \<noteq> [] \<Longrightarrow> members_text kvs \<noteq> [] \<and> hd (members_text kvs) = CHR 0x22"
  by (cases kvs) (auto simp: QuoteJSONString_def)

lemma skip_ws_id: "s \<noteq> [] \<Longrightarrow> \<not> is_ws (hd s) \<Longrightarrow> skip_ws (s @ rest) = s @ rest"
  by (cases s) (simp_all add: skip_ws_def)

lemma strip_prefix_append: "strip_prefix p (p @ rest) = Some rest"
  by (simp add: strip_prefix_def)

lemma define_property_fresh: "k \<notin> fst ` set obj \<Longrightarrow> define_property k v obj = obj @ [(k, v)]"
  by (induction obj) auto

lemma object_of_members_distinct_aux:
  "distinct (map fst (obj @ ms)) \<Longrightarrow>
   foldl (\<lambda>obj (k, v). define_property k v obj) obj ms = obj @ ms"
proof (induction ms arbitrary: obj)
  case Nil
  then show ?case by simp
next
  case (Cons m ms)
  obtain k v where m: "m = (k, v)" by (cases m)
  have "k \<notin> fst ` set obj" using Cons.prems m by auto
  then have "define_property k v obj = obj @ [(k, v)]" by (rule define_property_fresh)
  moreover have "distinct (map fst ((obj @ [(k, v)]) @ ms))" using Cons.prems m by simp
  ultimately show ?case using Cons.IH [of "obj @ [(k, v)]"] m by simp
qed

lemma object_of_members_distinct: "distinct (map fst ms) \<Longrightarrow> object_of_members ms = ms"
  using object_of_members_distinct_aux [of "[]" ms] by (simp add: object_of_members_def)

lemma parse_json_text:
  "json_shaped j \<Longrightarrow> length (json_text j) \<le> n \<Longrightarrow> delimited rest \<Longrightarrow>
     parse_value n (json_text j @ rest) = Parsed (j, rest)"
  "(\<forall>x \<in> set xs. json_shaped x) \<Longrightarrow> xs \<noteq> [] \<Longrightarrow> length (elements_text xs) \<le> n \<Longrightarrow>
     parse_elements n (elements_text xs @ rest) = Parsed (xs, rest)"
  "(\<forall>v \<in> set (map snd kvs). json_shaped v) \<Longrightarrow> kvs \<noteq> [] \<Longrightarrow> length (members_text kvs) \<le> n \<Longrightarrow>
     parse_members n (members_text kvs @ rest) = Parsed (kvs, rest)"
proof (induction j and xs and kvs arbitrary: n rest and n rest and n rest
        rule: json_text_elements_text_members_text.induct)
  case (1 xs)
  then obtain m where n: "n = Suc m" by (cases n) auto
  show ?case
  proof (cases "xs = []")
    case True
    then show ?thesis using n by (simp add: skip_ws_def is_ws_def)
  next
    case False
    have len: "length (elements_text xs) \<le> m" using 1(3) n by simp
    have sk: "skip_ws (elements_text xs @ rest) = elements_text xs @ rest"
      using elements_text_head [OF False] by (simp add: skip_ws_id)
    have hd: "hd (elements_text xs @ rest) \<noteq> CHR '']''"
      using elements_text_head [OF False] by simp
    have "parse_elements m (elements_text xs @ rest) = Parsed (xs, rest)"
      using 1(1) [OF _ False len] 1(2) by simp
    then show ?thesis using n sk hd elements_text_head [OF False] by simp
  qed
next
  case (2 kvs)
  then obtain m where n: "n = Suc m" by (cases n) auto
  have dist: "distinct (map fst kvs)" using 2(2) by simp
  show ?case
  proof (cases "kvs = []")
    case True
    then show ?thesis using n by (simp add: skip_ws_def is_ws_def)
  next
    case False
    have len: "length (members_text kvs) \<le> m" using 2(3) n by simp
    have h: "members_text kvs \<noteq> []" "hd (members_text kvs) = CHR 0x22"
      using members_text_head [OF False] by simp_all
    then have sk: "skip_ws (members_text kvs @ rest) = members_text kvs @ rest"
      by (simp add: skip_ws_id is_ws_def)
    have hd: "hd (members_text kvs @ rest) \<noteq> CHR ''}''" using h by simp
    have "parse_members m (members_text kvs @ rest) = Parsed (kvs, rest)"
      using 2(1) [OF _ False len] 2(2) by simp
    then show ?thesis using n sk hd h object_of_members_distinct [OF dist] by simp
  qed
next
  case (3 s)
  then obtain m where n: "n = Suc m" by (cases n) (auto simp: QuoteJSONString_def)
  show ?case using n by (simp add: parse_quoted parse_string_body_escaped)
next
  case (4 i)
  have ne: "decimal_toString i 0 \<noteq> []" using decimal_toString_head by blast
  then obtain m where n: "n = Suc m" using 4(2) by (cases n) auto
  obtain c cs where cs: "decimal_toString i 0 = c # cs" using ne by (cases "decimal_toString i 0") auto
  have c: "c = CHR ''-'' \<or> is_digit c" using decimal_toString_head [of i 0] cs by simp
  then have "c \<noteq> CHR ''[''" "c \<noteq> CHR ''{''" "c \<noteq> CHR 0x22" "c \<noteq> CHR ''n''" "c \<noteq> CHR ''t''" "c \<noteq> CHR ''f''"
    using is_digit_not_special [of c] by auto
  then have "parse_value (Suc m) ((c # cs) @ rest) = of_option (parse_number ((c # cs) @ rest))" by simp
  then show ?case using n cs parse_number_JNum [OF 4(3), of i] by (simp add: of_option_def)
next
  case (5 d k)
  have ne: "decimal_toString d k \<noteq> []" using decimal_toString_head by blast
  then obtain m where n: "n = Suc m" using 5(2) by (cases n) auto
  obtain c cs where cs: "decimal_toString d k = c # cs" using ne by (cases "decimal_toString d k") auto
  have c: "c = CHR ''-'' \<or> is_digit c" using decimal_toString_head [of d k] cs by simp
  then have "c \<noteq> CHR ''[''" "c \<noteq> CHR ''{''" "c \<noteq> CHR 0x22" "c \<noteq> CHR ''n''" "c \<noteq> CHR ''t''" "c \<noteq> CHR ''f''"
    using is_digit_not_special [of c] by auto
  then have "parse_value (Suc m) ((c # cs) @ rest) = of_option (parse_number ((c # cs) @ rest))" by simp
  moreover have "parse_number (decimal_toString d k @ rest) = Some (JDec d k, rest)"
    using 5(1,3) by (intro parse_number_JDec) simp_all
  ultimately show ?case using n cs by (simp add: of_option_def)
next
  case (6 b)
  then obtain m where n: "n = Suc m" by (cases n) (auto split: if_splits)
  have "strip_prefix ''rue'' (''rue'' @ rest) = Some rest" "strip_prefix ''alse'' (''alse'' @ rest) = Some rest"
    by (rule strip_prefix_append)+
  then show ?case using n by (cases b) (simp_all add: of_option_def)
next
  case "7_2"
  then obtain m where n: "n = Suc m" by (cases n) auto
  have "strip_prefix ''ull'' (''ull'' @ rest) = Some rest" by (rule strip_prefix_append)
  then show ?case using n by (simp add: of_option_def)
next
  case (9 x xs)
  let ?tail = "(if xs = [] then '']'' else CHR '','' # elements_text xs) @ rest"
  obtain m where n: "n = Suc m" using 9(5) by (cases n) (auto split: if_splits)
  have lenx: "length (json_text x) \<le> m" using 9(5) n by (auto split: if_splits)
  have del: "delimited ?tail" by (simp add: delimited_def)
  have px: "parse_value m (json_text x @ ?tail) = Parsed (x, ?tail)"
    using 9(1) [OF _ lenx del] 9(3) by simp
  show ?case
  proof (cases "xs = []")
    case True
    then show ?thesis using n px by (simp add: skip_ws_def is_ws_def)
  next
    case False
    have lenr: "length (elements_text xs) \<le> m" using 9(5) n False by simp
    have sk: "skip_ws (elements_text xs @ rest) = elements_text xs @ rest"
      using elements_text_head [OF False] by (simp add: skip_ws_id)
    have "parse_elements m (elements_text xs @ rest) = Parsed (xs, rest)"
      using 9(2) [OF False _ False lenr] 9(3) by simp
    then show ?thesis using n px False sk by (simp add: skip_ws_def is_ws_def)
  qed
next
  case (11 k v kvs)
  let ?tail = "(if kvs = [] then ''}'' else CHR '','' # members_text kvs) @ rest"
  obtain m where n: "n = Suc m" using 11(5) by (cases n) (auto split: if_splits)
  have lenv: "length (json_text v) \<le> m" using 11(5) n by (auto split: if_splits)
  have del: "delimited ?tail" by (simp add: delimited_def)
  have pv: "parse_value m (json_text v @ ?tail) = Parsed (v, ?tail)"
    using 11(1) [OF _ lenv del] 11(3) by simp
  have key: "parse_string_body (concat (map escape_char k) @ CHR 0x22 # CHR '':'' # json_text v @ ?tail)
      = Parsed (k, CHR '':'' # json_text v @ ?tail)"
    by (rule parse_string_body_escaped)
  have skv: "skip_ws (json_text v @ ?tail) = json_text v @ ?tail"
    using json_text_head [of v] by (simp add: skip_ws_id)
  have layout: "members_text ((k, v) # kvs) @ rest
      = CHR 0x22 # (concat (map escape_char k) @ CHR 0x22 # CHR '':'' # json_text v @ ?tail)"
    by (simp add: QuoteJSONString_def)
  show ?case
  proof (cases "kvs = []")
    case True
    then show ?thesis unfolding layout using n pv key skv
      by (simp add: skip_ws_def is_ws_def)
  next
    case False
    have lenr: "length (members_text kvs) \<le> m" using 11(5) n False by simp
    have h: "members_text kvs \<noteq> []" "hd (members_text kvs) = CHR 0x22"
      using members_text_head [OF False] by simp_all
    then have sk: "skip_ws (members_text kvs @ rest) = members_text kvs @ rest"
      by (simp add: skip_ws_id is_ws_def)
    have "parse_members m (members_text kvs @ rest) = Parsed (kvs, rest)"
      using 11(2) [OF False _ False lenr] 11(3) by simp
    then show ?thesis unfolding layout using n pv key skv False sk
      by (simp add: skip_ws_def is_ws_def)
  qed
qed simp_all

subsection \<open>The bound on the recursion is immaterial\<close>

text \<open>
  Every successful parse consumes input, so the depth of the recursion is bounded by twice the
  length of the text, and any two bounds at least that large give the same answer.
\<close>

lemma skip_ws_length: "length (skip_ws s) \<le> length s"
  by (simp add: skip_ws_def length_dropWhile_le)

lemma parse_string_body_shorter:
  "parse_string_body s = Parsed (x, r) \<Longrightarrow> length r < length s"
proof (induction s arbitrary: x r rule: length_induct)
  case (1 s)
  have ih: "parse_string_body t = Parsed (y, r') \<Longrightarrow> length t < length s \<Longrightarrow> length r' < length t"
    for t y r'
    using 1(1) by blast
  from 1(2) obtain c cs where s: "s = c # cs" by (cases s) auto
  note p = 1(2) [unfolded s]
  show ?case
  proof (cases "c = CHR 0x22")
    case True
    then show ?thesis using p s by simp
  next
    case nq: False
    show ?thesis
    proof (cases "c = CHR 0x5C")
      case False
      then obtain y where "parse_string_body cs = Parsed (y, r)"
        using p nq by (auto simp: then_parse_Parsed split: if_splits)
      then show ?thesis using ih [of cs y r] s by simp
    next
      case True
      then obtain e rr where cs: "cs = e # rr" using p nq by (cases cs) auto
      show ?thesis
      proof (cases "e = CHR ''u''")
        case False
        then obtain y where "parse_string_body rr = Parsed (y, r)"
          using p nq True cs by (auto simp: then_parse_Parsed split: option.splits)
        then show ?thesis using ih [of rr y r] s cs by simp
      next
        case u: True
        then obtain h1 h2 h3 h4 r' where rr: "rr = h1 # h2 # h3 # h4 # r'"
          using p nq True cs by (simp split: list.splits)
        then obtain y where "parse_string_body r' = Parsed (y, r)"
          using p nq True cs u by (auto simp: then_parse_Parsed split: option.splits if_splits)
        then show ?thesis using ih [of r' y r] s cs rr by simp
      qed
    qed
  qed
qed

lemma parse_fraction_shorter: "parse_fraction s = Some (fr, r) \<Longrightarrow> length r \<le> length s"
  by (auto simp: parse_fraction_def Let_def split: if_splits)

lemma parse_exponent_shorter: "parse_exponent s = Some (e, r) \<Longrightarrow> length r \<le> length s"
  by (auto simp: parse_exponent_def Let_def split: if_splits)

lemma parse_unsigned_shorter:
  assumes "parse_unsigned s = Some (v, r)"
  shows "length r < length s"
proof -
  let ?ip = "int_part s"
  from assms have ip: "?ip \<noteq> []" by (auto simp: parse_unsigned_def Let_def split: if_splits)
  then have s: "s \<noteq> []" by (auto simp: int_part_def)
  from assms ip obtain fr s2 where f: "parse_fraction (drop (length ?ip) s) = Some (fr, s2)"
    by (auto simp: parse_unsigned_def Let_def split: option.splits)
  from assms ip f obtain e where e: "parse_exponent s2 = Some (e, r)"
    by (auto simp: parse_unsigned_def Let_def split: option.splits)
  have "length (drop (length ?ip) s) < length s" using ip s by (cases ?ip) auto
  then show ?thesis
    using parse_fraction_shorter [OF f] parse_exponent_shorter [OF e] by linarith
qed

lemma parse_number_shorter: "parse_number s = Some (v, r) \<Longrightarrow> length r < length s"
proof -
  assume p: "parse_number s = Some (v, r)"
  show ?thesis
  proof (cases "s \<noteq> [] \<and> hd s = CHR ''-''")
    case True
    then obtain w where "parse_unsigned (tl s) = Some (w, r)"
      using p by (auto simp: parse_number_def)
    then have "length r < length (tl s)" by (rule parse_unsigned_shorter)
    then show ?thesis by simp
  next
    case False
    then obtain w where "parse_unsigned s = Some (w, r)"
      using p by (auto simp: parse_number_def)
    then show ?thesis by (rule parse_unsigned_shorter)
  qed
qed

lemma strip_prefix_shorter: "strip_prefix p s = Some r \<Longrightarrow> length r \<le> length s"
  by (auto simp: strip_prefix_def split: if_splits)

lemma parse_consumes:
  "(\<forall>s v r. parse_value n s = Parsed (v, r) \<longrightarrow> length r < length s)
   \<and> (\<forall>s xs r. parse_elements n s = Parsed (xs, r) \<longrightarrow> length r < length s)
   \<and> (\<forall>s ms r. parse_members n s = Parsed (ms, r) \<longrightarrow> length r < length s)"
proof (induction n)
  case 0
  then show ?case by simp
next
  case (Suc n)
  note ihv = Suc [THEN conjunct1, rule_format]
  note ihe = Suc [THEN conjunct2, THEN conjunct1, rule_format]
  note ihm = Suc [THEN conjunct2, THEN conjunct2, rule_format]
  have v: "length r < length s" if p: "parse_value (Suc n) s = Parsed (v, r)" for s v r
  proof -
    from p obtain c cs where s: "s = c # cs" by (cases s) auto
    note p = p [unfolded s]
    have sk: "length (skip_ws cs) \<le> length cs" by (rule skip_ws_length)
    consider (arr) "c = CHR ''[''" | (obj) "c \<noteq> CHR ''[''" "c = CHR ''{''"
      | (str) "c \<noteq> CHR ''[''" "c \<noteq> CHR ''{''" "c = CHR 0x22"
      | (lit) "c \<noteq> CHR ''[''" "c \<noteq> CHR ''{''" "c \<noteq> CHR 0x22" "c = CHR ''n'' \<or> c = CHR ''t'' \<or> c = CHR ''f''"
      | (num) "c \<noteq> CHR ''[''" "c \<noteq> CHR ''{''" "c \<noteq> CHR 0x22" "c \<noteq> CHR ''n''" "c \<noteq> CHR ''t''" "c \<noteq> CHR ''f''"
      by blast
    then show ?thesis
    proof cases
      case arr
      show ?thesis
      proof (cases "skip_ws cs \<noteq> [] \<and> hd (skip_ws cs) = CHR '']''")
        case True
        then have "r = tl (skip_ws cs)" using p arr by simp
        then show ?thesis using sk s True by (cases "skip_ws cs") auto
      next
        case False
        then obtain xs where "parse_elements n (skip_ws cs) = Parsed (xs, r)"
          using p arr by (auto simp: then_parse_Parsed)
        then show ?thesis using ihe [of "skip_ws cs" xs r] sk s by simp
      qed
    next
      case obj
      show ?thesis
      proof (cases "skip_ws cs \<noteq> [] \<and> hd (skip_ws cs) = CHR ''}''")
        case True
        then have "r = tl (skip_ws cs)" using p obj by simp
        then show ?thesis using sk s True by (cases "skip_ws cs") auto
      next
        case False
        then obtain ms where "parse_members n (skip_ws cs) = Parsed (ms, r)"
          using p obj by (auto simp: then_parse_Parsed)
        then show ?thesis using ihm [of "skip_ws cs" ms r] sk s by simp
      qed
    next
      case str
      then obtain x where "parse_string_body cs = Parsed (x, r)"
        using p by (auto simp: then_parse_Parsed)
      then show ?thesis using parse_string_body_shorter [of cs x r] s by simp
    next
      case lit
      then obtain q where "strip_prefix q cs = Some r"
        using p by (auto simp: of_option_Parsed)
      then show ?thesis using strip_prefix_shorter [of q cs r] s by simp
    next
      case num
      then have "parse_number (c # cs) = Some (v, r)" using p by (simp add: of_option_Parsed)
      then show ?thesis using parse_number_shorter s by blast
    qed
  qed
  have e: "length r < length s" if p: "parse_elements (Suc n) s = Parsed (xs, r)" for s xs r
  proof -
    from p obtain x r0 where pv: "parse_value n s = Parsed (x, r0)"
      by (auto simp: then_parse_Parsed)
    then have l0: "length r0 < length s" by (rule ihv)
    from p pv obtain d r1 where sk: "skip_ws r0 = d # r1"
      by (cases "skip_ws r0") auto
    have l1: "length r1 < length r0" using skip_ws_length [of r0] sk by simp
    show ?thesis
    proof (cases "d = CHR '']''")
      case True
      then show ?thesis using p pv sk l0 l1 by simp
    next
      case False
      then obtain ys where "parse_elements n (skip_ws r1) = Parsed (ys, r)"
        using p pv sk by (auto simp: then_parse_Parsed split: if_splits)
      then show ?thesis using ihe [of "skip_ws r1" ys r] skip_ws_length [of r1] l0 l1 by simp
    qed
  qed
  have m: "length r < length s" if p: "parse_members (Suc n) s = Parsed (ms, r)" for s ms r
  proof -
    from p obtain s1 where s: "s = CHR 0x22 # s1"
      by (cases s) (auto split: if_splits)
    from p s obtain k r0 where pk: "parse_string_body s1 = Parsed (k, r0)"
      by (auto simp: then_parse_Parsed)
    then have l0: "length r0 < length s1" by (rule parse_string_body_shorter)
    from p s pk obtain r1 where sk1: "skip_ws r0 = CHR '':'' # r1"
      by (cases "skip_ws r0") (auto split: if_splits)
    have l1: "length r1 < length r0" using skip_ws_length [of r0] sk1 by simp
    from p s pk sk1 obtain v r2 where pv: "parse_value n (skip_ws r1) = Parsed (v, r2)"
      by (auto simp: then_parse_Parsed)
    then have l2: "length r2 < length r1" using ihv [OF pv] skip_ws_length [of r1] by simp
    from p s pk sk1 pv obtain d r3 where sk3: "skip_ws r2 = d # r3"
      by (cases "skip_ws r2") auto
    have l3: "length r3 < length r2" using skip_ws_length [of r2] sk3 by simp
    show ?thesis
    proof (cases "d = CHR ''}''")
      case True
      then show ?thesis using p s pk sk1 pv sk3 l0 l1 l2 l3 by simp
    next
      case False
      then obtain ys where "parse_members n (skip_ws r3) = Parsed (ys, r)"
        using p s pk sk1 pv sk3 by (auto simp: then_parse_Parsed split: if_splits)
      then show ?thesis using ihm [of "skip_ws r3" ys r] skip_ws_length [of r3] s l0 l1 l2 l3 by simp
    qed
  qed
  show ?case using v e m by blast
qed

lemma parse_fuel:
  "(\<forall>m s. 2 * length s \<le> n \<and> 2 * length s \<le> m \<longrightarrow> parse_value n s = parse_value m s)
   \<and> (\<forall>m s. 2 * length s + 1 \<le> n \<and> 2 * length s + 1 \<le> m \<longrightarrow>
          parse_elements n s = parse_elements m s)
   \<and> (\<forall>m s. 2 * length s + 1 \<le> n \<and> 2 * length s + 1 \<le> m \<longrightarrow>
          parse_members n s = parse_members m s)"
proof (induction n)
  case 0
  have "parse_value 0 [] = parse_value m []" for m by (cases m) simp_all
  then show ?case by simp
next
  case (Suc n)
  note ihv = Suc [THEN conjunct1, rule_format]
  note ihe = Suc [THEN conjunct2, THEN conjunct1, rule_format]
  note ihm = Suc [THEN conjunct2, THEN conjunct2, rule_format]
  note cv = parse_consumes [THEN conjunct1, rule_format]
  have v: "parse_value (Suc n) s = parse_value m s"
    if b: "2 * length s \<le> Suc n" "2 * length s \<le> m" for m s
  proof (cases s)
    case Nil
    then show ?thesis by (cases m) simp_all
  next
    case (Cons c cs)
    then obtain k where m: "m = Suc k" using b by (cases m) auto
    have sk: "length (skip_ws cs) \<le> length cs" by (rule skip_ws_length)
    have e: "parse_elements n (skip_ws cs) = parse_elements k (skip_ws cs)"
      using b sk Cons m by (intro ihe) auto
    have ms: "parse_members n (skip_ws cs) = parse_members k (skip_ws cs)"
      using b sk Cons m by (intro ihm) auto
    show ?thesis unfolding Cons m parse_value.simps e ms ..
  qed
  have e: "parse_elements (Suc n) s = parse_elements m s"
    if b: "2 * length s + 1 \<le> Suc n" "2 * length s + 1 \<le> m" for m s
  proof -
    obtain k where m: "m = Suc k" using b by (cases m) auto
    have pv: "parse_value n s = parse_value k s"
      using b m by (intro ihv) auto
    show ?thesis
    proof (cases "parse_value k s")
      case (Parsed a)
      obtain x r where a: "a = (x, r)" by (cases a)
      have l: "length r < length s" using cv [of k s x r] Parsed a by simp
      show ?thesis
      proof (cases "skip_ws r")
        case Nil
        then show ?thesis using pv m Parsed a by simp
      next
        case (Cons d r1)
        have "length (skip_ws r1) \<le> length r1" by (rule skip_ws_length)
        moreover have "length r1 < length r" using skip_ws_length [of r] Cons by simp
        ultimately have "parse_elements n (skip_ws r1) = parse_elements k (skip_ws r1)"
          using b m l by (intro ihe) auto
        then show ?thesis using pv m Parsed a Cons by simp
      qed
    qed (use pv m in simp_all)
  qed
  have mm: "parse_members (Suc n) s = parse_members m s"
    if b: "2 * length s + 1 \<le> Suc n" "2 * length s + 1 \<le> m" for m s
  proof -
    obtain k where m: "m = Suc k" using b by (cases m) auto
    show ?thesis
    proof (cases s)
      case Nil
      then show ?thesis using m by simp
    next
      case s: (Cons q s1)
      show ?thesis
      proof (cases "parse_string_body s1")
        case (Parsed a)
        obtain key r where a: "a = (key, r)" by (cases a)
        have l0: "length r < length s1"
          using parse_string_body_shorter [of s1 key r] Parsed a by simp
        show ?thesis
        proof (cases "skip_ws r")
          case Nil
          then show ?thesis using m s Parsed a by simp
        next
          case r: (Cons colon r1)
          have l1: "length r1 < length r" using skip_ws_length [of r] r by simp
          have pv: "parse_value n (skip_ws r1) = parse_value k (skip_ws r1)"
            using b m s l0 l1 skip_ws_length [of r1] by (intro ihv) auto
          show ?thesis
          proof (cases "parse_value k (skip_ws r1)")
            case v: (Parsed a2)
            obtain x r2 where a2: "a2 = (x, r2)" by (cases a2)
            have l2: "length r2 < length r1"
              using cv [of k "skip_ws r1" x r2] v a2 skip_ws_length [of r1] by simp
            show ?thesis
            proof (cases "skip_ws r2")
              case Nil
              then show ?thesis using m s Parsed a r pv v a2 by simp
            next
              case r2: (Cons d r3)
              have "length r3 < length r2" using skip_ws_length [of r2] r2 by simp
              then have "parse_members n (skip_ws r3) = parse_members k (skip_ws r3)"
                using b m s l0 l1 l2 skip_ws_length [of r3] by (intro ihm) auto
              then show ?thesis using m s Parsed a r pv v a2 r2 by simp
            qed
          qed (use m s Parsed a r pv in simp_all)
        qed
      qed (use m s in simp_all)
    qed
  qed
  show ?case using v e mm by blast
qed

lemma JSON_parse_text_fuel:
  assumes "2 * length input \<le> n"
  shows "JSON_parse_text input =
         then_parse (parse_value n (skip_ws input))
           (\<lambda>(v, rest). if skip_ws rest = [] then Parsed v else Malformed)"
proof -
  have "parse_value (2 * length input + 2) (skip_ws input) = parse_value n (skip_ws input)"
    using assms skip_ws_length [of input]
    by (intro parse_fuel [THEN conjunct1, rule_format]) auto
  then show ?thesis by (simp add: JSON_parse_text_def)
qed

subsection \<open>Texts outside the model\<close>


lemma of_option_modelled [simp]: "of_option x \<noteq> Unmodelled"
  by (cases x) (simp_all add: of_option_def)













lemma ends_with_refl: "ends_with s s"
  by (simp add: ends_with_def)










section \<open>Properties of snapshot sync\<close>










section \<open>Properties of the changeset serialisation\<close>

subsection \<open>The replacer, the reviver and the round trip\<close>

lemma fst_tagged_pair: "fst \<circ> (\<lambda>(k, v). (k, tagged v)) = fst"
  by (rule ext) (simp add: case_prod_beta)

lemma snd_tagged_pair: "snd \<circ> (\<lambda>(k, v). (k, tagged v)) = tagged \<circ> snd"
  by (rule ext) (simp add: case_prod_beta)

lemma json_shaped_tagged:
  "roundtrip_safe v \<Longrightarrow> json_shaped (tagged v)"
  by (induction v rule: tagged.induct) (auto simp: fst_tagged_pair snd_tagged_pair)

lemma join_with_elements:
  "join_with sep (t # t' # ts) @ close = t @ sep @ join_with sep (t' # ts) @ close"
  by simp

lemma serialize_json_text:
  "roundtrip_safe v \<Longrightarrow> serialize v = Inr (Some (json_text (tagged v)))"
  "(\<forall>x \<in> set xs. roundtrip_safe x) \<Longrightarrow>
     \<exists>ts. serialize_elems xs = Inr ts \<and> length ts = length xs
        \<and> join_with '','' ts @ '']'' = elements_text (map tagged xs)"
  "(\<forall>v \<in> set (map snd kvs). roundtrip_safe v) \<Longrightarrow>
     \<exists>ts. serialize_props kvs = Inr ts \<and> length ts = length kvs
        \<and> join_with '','' ts @ ''}'' = members_text (map (\<lambda>(k, v). (k, tagged v)) kvs)"
proof (induction v and xs and kvs rule: serialize_serialize_elems_serialize_props.induct)
  case (1 v)
  show ?case
  proof (cases v)
    case (JArr xs)
    then have "\<exists>ts. serialize_elems xs = Inr ts \<and> length ts = length xs
        \<and> join_with '','' ts @ '']'' = elements_text (map tagged xs)"
      using 1(1) [of xs] 1(3) by (simp add: replacer_def)
    then show ?thesis using JArr by (auto simp: serialize.simps(1) replacer_def)
  next
    case (JObj kvs)
    then have "\<exists>ts. serialize_props kvs = Inr ts \<and> length ts = length kvs
        \<and> join_with '','' ts @ ''}'' = members_text (map (\<lambda>(k, v). (k, tagged v)) kvs)"
      using 1(2) [of kvs] 1(3) by (simp add: replacer_def)
    then show ?thesis using JObj by (auto simp: serialize.simps(1) replacer_def)
  qed (use 1(3) in \<open>simp_all add: serialize.simps(1) replacer_def\<close>)
next
  case 2
  then show ?case by simp
next
  case (3 x xs)
  from 3 obtain ts where ts: "serialize_elems xs = Inr ts" "length ts = length xs"
      "join_with '','' ts @ '']'' = elements_text (map tagged xs)"
    by auto
  have sx: "serialize x = Inr (Some (json_text (tagged x)))" using 3 by simp
  show ?case
  proof (cases xs)
    case Nil
    then show ?thesis using sx ts by simp
  next
    case (Cons y ys)
    then obtain t ts' where tl: "ts = t # ts'" using ts(2) by (cases ts) auto
    show ?thesis using sx ts Cons tl by simp
  qed
next
  case 4
  then show ?case by simp
next
  case (5 k v kvs)
  from 5 obtain ts where ts: "serialize_props kvs = Inr ts" "length ts = length kvs"
      "join_with '','' ts @ ''}'' = members_text (map (\<lambda>(k, v). (k, tagged v)) kvs)"
    by auto
  have sv: "serialize v = Inr (Some (json_text (tagged v)))" using 5 by simp
  show ?case
  proof (cases kvs)
    case Nil
    then show ?thesis using sv ts by simp
  next
    case (Cons y ys)
    then obtain t ts' where tl: "ts = t # ts'" using ts(2) by (cases ts) auto
    show ?thesis using sv ts Cons tl by simp
  qed
qed

lemma is_digit_not_str_ws: "is_digit c \<Longrightarrow> \<not> is_str_ws c"
  by (auto simp: is_digit_def is_str_ws_def Let_def)

lemma trim_id: "s \<noteq> [] \<Longrightarrow> \<not> is_str_ws (hd s) \<Longrightarrow> \<not> is_str_ws (last s) \<Longrightarrow> trim s = s"
proof -
  assume a: "s \<noteq> []" "\<not> is_str_ws (hd s)" "\<not> is_str_ws (last s)"
  then have "dropWhile is_str_ws s = s" by (cases s) simp_all
  moreover have "dropWhile is_str_ws (rev s) = rev s"
    using a by (cases "rev s") (simp_all add: last_rev [symmetric] hd_rev)
  ultimately show ?thesis by (simp add: trim_def)
qed

lemma hex_val_digit: "is_digit c \<Longrightarrow> hex_val c = Some (digit_val c) \<and> digit_val c < 10"
  by (auto simp: is_digit_def hex_val_def digit_val_def Let_def)

lemma radix_value_decimal:
  "ds \<noteq> [] \<Longrightarrow> list_all is_digit ds \<Longrightarrow> radix_value 10 ds = Some (digits_value ds)"
proof -
  assume ne: "ds \<noteq> []" and dig: "list_all is_digit ds"
  have "list_all is_digit ds \<Longrightarrow>
      foldl (\<lambda>a c. 10 * a + the (hex_val c)) a ds = foldl (\<lambda>a c. 10 * a + digit_val c) a ds" for a
    by (induction ds arbitrary: a) (simp_all add: hex_val_digit)
  moreover have "list_all (\<lambda>c. case hex_val c of None \<Rightarrow> False | Some d \<Rightarrow> d < 10) ds"
    using dig by (induction ds) (simp_all add: hex_val_digit)
  ultimately show ?thesis using ne dig by (simp add: radix_value_def digits_value_def)
qed

lemma radix_of_prefix_digits:
  "list_all is_digit ds \<Longrightarrow> hd ds \<noteq> CHR ''0'' \<or> length ds = 1 \<Longrightarrow> radix_of_prefix ds = None"
proof (cases ds)
  case Nil
  then show ?thesis by (simp add: radix_of_prefix_def)
next
  case (Cons z r)
  assume a: "list_all is_digit ds" "hd ds \<noteq> CHR ''0'' \<or> length ds = 1"
  show ?thesis
  proof (cases r)
    case Nil
    then show ?thesis using Cons by (simp add: radix_of_prefix_def)
  next
    case (Cons x r')
    then show ?thesis using a \<open>ds = z # r\<close> by (simp add: radix_of_prefix_def)
  qed
qed

lemma BigInt_of_nat_digits:
  "BigInt_of_string (nat_digits n) = Inr (int n)"
proof -
  let ?ds = "nat_digits n"
  have dig: "list_all is_digit ?ds" by (rule nat_digits_all)
  have ne: "?ds \<noteq> []" by (rule nat_digits_nonempty)
  have h: "is_digit (hd ?ds)" "is_digit (last ?ds)"
    using dig ne by (auto simp: list_all_iff)
  then have tr: "trim ?ds = ?ds" using ne by (simp add: trim_id is_digit_not_str_ws)
  have "hd ?ds \<noteq> CHR ''0'' \<or> length ?ds = 1"
    using hd_nat_digits [of n] nat_digits_0 by (auto simp: digit_char_0)
  then have pre: "radix_of_prefix ?ds = None" by (rule radix_of_prefix_digits [OF dig])
  have sign: "hd ?ds \<noteq> CHR ''-''" "hd ?ds \<noteq> CHR ''+''"
    using h(1) by (auto simp: is_digit_def Let_def)
  show ?thesis using tr ne pre sign radix_value_decimal [OF ne dig] digits_value_nat_digits [of n]
    by (simp add: BigInt_of_string_def Let_def)
qed

lemma BigInt_of_int_toString: "BigInt_of_string (int_toString i) = Inr i"
proof (cases "i < 0")
  case False
  then show ?thesis using BigInt_of_nat_digits [of "nat i"] by (simp add: int_toString_def)
next
  case True
  let ?ds = "nat_digits (nat (- i))"
  let ?t = "CHR ''-'' # ?ds"
  have dig: "list_all is_digit ?ds" by (rule nat_digits_all)
  have ne: "?ds \<noteq> []" by (rule nat_digits_nonempty)
  have "is_digit (last ?ds)" using dig ne by (auto simp: list_all_iff)
  then have "\<not> is_str_ws (last ?t)" using ne by (simp add: is_digit_not_str_ws)
  moreover have "\<not> is_str_ws (hd ?t)" by (simp add: is_str_ws_def)
  ultimately have tr: "trim ?t = ?t" by (simp add: trim_id)
  have pre: "radix_of_prefix ?t = None" by (cases ?ds) (simp_all add: radix_of_prefix_def)
  show ?thesis using True tr pre radix_value_decimal [OF ne dig] digits_value_nat_digits [of "nat (- i)"]
    by (simp add: BigInt_of_string_def Let_def int_toString_def)
qed

lemma reviver_tagged_bigint: "reviver (JStr (''BIGINT::'' @ int_toString n)) = Inr (JBigInt n)"
  by (simp add: reviver_def BigInt_of_int_toString)

lemma reviver_id: "roundtrip_safe v \<Longrightarrow> reviver v = Inr v"
  by (cases v) (simp_all add: reviver_def)

lemma internalize_tagged:
  "roundtrip_safe v \<Longrightarrow> internalize reviver (tagged v) = Inr v"
  "(\<forall>x \<in> set xs. roundtrip_safe x) \<Longrightarrow> internalize_elems reviver (map tagged xs) = Inr xs"
  "(\<forall>v \<in> set (map snd kvs). roundtrip_safe v) \<Longrightarrow>
     internalize_props reviver (map (\<lambda>(k, v). (k, tagged v)) kvs) = Inr kvs"
proof (induction v and xs and kvs rule: json_text_elements_text_members_text.induct)
  case (1 xs)
  then show ?case by (simp add: reviver_def)
next
  case (2 kvs)
  then show ?case by (simp add: reviver_def)
next
  case (9 x xs)
  then show ?case by (cases "xs = []") simp_all
next
  case (11 k v kvs)
  have "roundtrip_safe v" using 11(3) by simp
  then have "v \<noteq> JUndefined" by auto
  then show ?case using 11 by (cases "kvs = []") simp_all
qed (use reviver_tagged_bigint in \<open>simp_all add: reviver_id\<close>)

lemma JSON_parse_text_json_text:
  "json_shaped j \<Longrightarrow> JSON_parse_text (json_text j) = Parsed j"
proof -
  assume j: "json_shaped j"
  have sk: "skip_ws (json_text j) = json_text j"
    using json_text_head [of j] skip_ws_id [of "json_text j" "[]"] by simp
  have "parse_value (2 * length (json_text j) + 2) (json_text j @ []) = Parsed (j, [])"
    by (rule parse_json_text(1) [OF j]) (simp_all add: delimited_def)
  moreover have "skip_ws [] = []" by (simp add: skip_ws_def)
  ultimately show ?thesis by (simp add: JSON_parse_text_def sk)
qed

lemma roundtrip_safe_json_shaped: "json_shaped v \<Longrightarrow> untagged v \<Longrightarrow> roundtrip_safe v"
  by (induction v rule: json_shaped.induct) auto

lemma roundtrip_safe_bigint: "is_bigint v \<Longrightarrow> roundtrip_safe v"
  by (cases v) (simp_all add: is_bigint_def)

lemma untagged_elem: "untagged (JArr xs) \<Longrightarrow> x \<in> set xs \<Longrightarrow> untagged x"
  by simp

lemma roundtrip_safe_change_tuple:
  assumes "is_change_tuple t" and "untagged t"
  shows "roundtrip_safe t"
proof -
  from assms(1) obtain tbl pk v2 v3 v4 c5 c6 c7 where
    t: "t = JArr [tbl, pk, v2, v3, v4, c5, c6, c7]"
    and s: "json_shaped tbl" "json_shaped pk" "is_bigint v2" "is_bigint v3" "is_bigint v4"
       "json_shaped c5" "json_shaped c6" "json_shaped c7"
    by (auto simp: is_change_tuple_def split: jsval.splits list.splits)
  have u: "untagged tbl" "untagged pk" "untagged c5" "untagged c6" "untagged c7"
    using assms(2) t by simp_all
  show ?thesis unfolding t
    using s u by (simp add: roundtrip_safe_json_shaped roundtrip_safe_bigint)
qed

lemma roundtrip_safe_changeset: "is_changeset v \<Longrightarrow> untagged v \<Longrightarrow> roundtrip_safe v"
  by (cases v) (auto simp: is_changeset_def list_all_iff intro: roundtrip_safe_change_tuple)

text \<open>
  C6 (amended). For every changeset (a finite sequence of 8-tuples with \<open>bigint\<close>s at the
  indices 2, 3 and 4 and JSON-shaped values elsewhere) in which no string value starts with
  \<open>BIGINT::\<close>, \<open>jsonParseWithBigInt(jsonStringifyWithBigInt(changeset))\<close> is the changeset
  again, \<open>bigint\<close> fields included; the same holds for every value built from \<open>null\<close>,
  booleans, numbers, such strings, \<open>bigint\<close>s, arrays and objects. The empty changeset
  serialises to the string \<open>[]\<close>, which is what \<open>getChangeset\<close> returns on an empty history.
\<close>

theorem changeset_roundtrip:
  "(is_changeset v \<and> untagged v \<longrightarrow> parse_of_stringify v = Some (Inr v))
   \<and> (roundtrip_safe v \<longrightarrow> parse_of_stringify v = Some (Inr v))
   \<and> jsonStringifyWithBigInt (JArr []) = Inr (Some ''[]'')
   \<and> getChangeset (\<lambda>db. Inr (JArr [])) c = Inr (Some ''[]'')"
proof -
  have rt: "parse_of_stringify v = Some (Inr v)" if safe: "roundtrip_safe v"
  proof -
    have "jsonStringifyWithBigInt v = Inr (Some (json_text (tagged v)))"
      using serialize_json_text(1) [OF safe] by (simp add: jsonStringifyWithBigInt_def)
    moreover have "JSON_parse_text (json_text (tagged v)) = Parsed (tagged v)"
      using json_shaped_tagged [OF safe] by (rule JSON_parse_text_json_text)
    ultimately show ?thesis
      using internalize_tagged(1) [OF safe]
      by (simp add: parse_of_stringify_def jsonParseWithBigInt_def JSON_parse_def)
  qed
  have empty: "jsonStringifyWithBigInt (JArr []) = Inr (Some ''[]'')"
    by (simp add: jsonStringifyWithBigInt_def serialize.simps(1) replacer_def)
  show ?thesis using rt roundtrip_safe_changeset [of v] empty by (auto simp: getChangeset_def)
qed

theorem changeset_roundtrip_witness:
  "is_changeset (JArr [JArr [JStr ''users'', JStr ''1'', JBigInt 1, JBigInt 2, JBigInt (- 3),
        JNum 0, JStr ''name'', JStr ''Alice'']])
   \<and> untagged (JArr [JArr [JStr ''users'', JStr ''1'', JBigInt 1, JBigInt 2, JBigInt (- 3),
        JNum 0, JStr ''name'', JStr ''Alice'']])
   \<and> parse_of_stringify (JArr [JArr [JStr ''users'', JStr ''1'', JBigInt 1, JBigInt 2, JBigInt (- 3),
        JNum 0, JStr ''name'', JStr ''Alice'']])
      = Some (Inr (JArr [JArr [JStr ''users'', JStr ''1'', JBigInt 1, JBigInt 2, JBigInt (- 3),
        JNum 0, JStr ''name'', JStr ''Alice'']]))
   \<and> roundtrip_safe (JObj [(''since'', JBigInt 12), (''tables'', JArr [JStr ''users'', JNull]),
        (''ratio'', JDec 15 1)])
   \<and> parse_of_stringify (JObj [(''since'', JBigInt 12), (''tables'', JArr [JStr ''users'', JNull]),
        (''ratio'', JDec 15 1)])
      = Some (Inr (JObj [(''since'', JBigInt 12), (''tables'', JArr [JStr ''users'', JNull]),
        (''ratio'', JDec 15 1)]))"
proof -
  let ?cs = "JArr [JArr [JStr ''users'', JStr ''1'', JBigInt 1, JBigInt 2, JBigInt (- 3),
        JNum 0, JStr ''name'', JStr ''Alice'']]"
  let ?obj = "JObj [(''since'', JBigInt 12), (''tables'', JArr [JStr ''users'', JNull]),
        (''ratio'', JDec 15 1)]"
  have h: "is_changeset ?cs" "untagged ?cs" "roundtrip_safe ?obj"
    by (simp_all add: is_changeset_def is_change_tuple_def is_bigint_def)
  have a: "parse_of_stringify ?cs = Some (Inr ?cs)"
    using changeset_roundtrip [of ?cs "\<lparr>db_state = (), applied = []\<rparr>"] h by blast
  have b: "parse_of_stringify ?obj = Some (Inr ?obj)"
    using changeset_roundtrip [of ?obj "\<lparr>db_state = (), applied = []\<rparr>"] h by blast
  show ?thesis using a b h by simp
qed

text \<open>
  C6 as stated fails: a changeset whose last position (the column value) is the string
  \<open>BIGINT::5\<close> comes back with the \<open>bigint\<close> \<open>5n\<close> there, and one whose value is the string
  \<open>BIGINT::five\<close> cannot be parsed back at all.
\<close>

theorem tagged_string_value_not_restored:
  "is_changeset (JArr [JArr [JStr ''users'', JStr ''1'', JBigInt 1, JBigInt 2, JBigInt 3,
        JNum 0, JStr ''name'', JStr ''BIGINT::5'']])
   \<and> parse_of_stringify (JArr [JArr [JStr ''users'', JStr ''1'', JBigInt 1, JBigInt 2, JBigInt 3,
        JNum 0, JStr ''name'', JStr ''BIGINT::5'']])
      = Some (Inr (JArr [JArr [JStr ''users'', JStr ''1'', JBigInt 1, JBigInt 2, JBigInt 3,
        JNum 0, JStr ''name'', JBigInt 5]]))
   \<and> is_changeset (JArr [JArr [JStr ''users'', JStr ''1'', JBigInt 1, JBigInt 2, JBigInt 3,
        JNum 0, JStr ''name'', JStr ''BIGINT::five'']])
   \<and> parse_of_stringify (JArr [JArr [JStr ''users'', JStr ''1'', JBigInt 1, JBigInt 2, JBigInt 3,
        JNum 0, JStr ''name'', JStr ''BIGINT::five'']])
      = Some (Inl SyntaxError)"
  by code_simp

end
